theory Spec2Isabelle
  imports Main "HOL-Library.Log_Nat" "HOL-Library.Sublist"
begin

section \<open>Logging and metrics\<close>

text \<open>
  The log wrapper and the metrics registry are external collaborators. A log line is
  recorded as its level and its message template (the first argument of the
  \<^verbatim>\<open>REL_INFO\<close>, \<^verbatim>\<open>REL_WARNING\<close> and \<^verbatim>\<open>REL_ERROR\<close> macros, apostrophes left out); the
  rendered arguments are not kept. A counter family is a function from the label pair
  passed to \<^verbatim>\<open>Get\<close> to the number of \<^verbatim>\<open>Increment\<close> calls.
\<close>

datatype log_level = Trace | Info | Warning | Error

type_synonym log_entry = "log_level \<times> string"

type_synonym counters = "string \<times> string \<Rightarrow> nat"

definition increment :: "string \<times> string \<Rightarrow> counters \<Rightarrow> counters" where
  "increment k m = m(k := m k + 1)"

section \<open>Frequency counters of the embed checker\<close>

text \<open>
  Modelled from the spec: \<^verbatim>\<open>bsky::alert_needed\<close> is called by the \<^verbatim>\<open>*_seen\<close> functions
  but its body is in a header that is not part of the sources at hand. The spec (4.5)
  says: alerts fire at geometrically increasing milestones, concretely at the counts
  \<open>factor ^ k\<close> for \<open>k = 1, 2, 3, \<dots>\<close>. No exponent above \<open>new_count\<close> has to be tried
  for a factor of at least 2, so the search is bounded by the count.
\<close>

definition alert_needed :: "nat \<Rightarrow> nat \<Rightarrow> bool" where
  "alert_needed new_count factor = (\<exists>k \<in> {1..new_count}. new_count = factor ^ k)"

text \<open>
  The state of \<^verbatim>\<open>embed_checker\<close> together with the process-wide singletons its code
  touches: the four frequency maps, the admission configuration, the per-category alert
  factors (constants of a header that is not at hand, kept as configuration fields),
  the \<^verbatim>\<open>embed_stats\<close> counter family, the hop histogram, the log, and the queues of the
  action router and of the report agent. Counts are \<^verbatim>\<open>size_t\<close> in the program and \<open>nat\<close>
  here: a count of \<open>2 ^ 64\<close> sightings of one key is out of reach.
\<close>

record ('m) checker =
  checked_images :: "string \<rightharpoonup> nat"
  checked_videos :: "string \<rightharpoonup> nat"
  checked_records :: "string \<rightharpoonup> nat"
  checked_uris :: "string \<rightharpoonup> nat"
  uri_host_prefix :: string
  whitelist_uris :: "string set"
  ImageFactor :: nat
  VideoFactor :: nat
  RecordFactor :: nat
  LinkFactor :: nat
  embed_stats :: counters
  link_hops :: "nat list"
  logs :: "log_entry list"
  action_queue :: "(string \<times> (string \<times> 'm list) list) list"
  report_queue :: "(string \<times> string \<times> string list) list"

definition stat :: "string \<times> string \<Rightarrow> 'm checker \<Rightarrow> 'm checker" where
  "stat k w = w\<lparr>embed_stats := increment k (embed_stats w)\<rparr>"

definition log_line :: "log_level \<Rightarrow> string \<Rightarrow> 'm checker \<Rightarrow> 'm checker" where
  "log_line lvl msg w = w\<lparr>logs := logs w @ [(lvl, msg)]\<rparr>"

text \<open>
  \<^verbatim>\<open>embed_checker::image_seen\<close>. \<^verbatim>\<open>insert({cid, 1})\<close> stores 1 for a new key and leaves
  an existing entry alone; on a hit the count is pre-incremented and tested.
\<close>

definition image_seen :: "string \<Rightarrow> string \<Rightarrow> string \<Rightarrow> 'm checker \<Rightarrow> 'm checker" where
  "image_seen repo path cid w0 =
     (let w = stat (''embed_checker'', ''image_checks'') w0 in
      case checked_images w cid of
        None \<Rightarrow> w\<lparr>checked_images := (checked_images w)(cid \<mapsto> 1)\<rparr>
      | Some c \<Rightarrow>
          (let n = c + 1;
               w1 = w\<lparr>checked_images := (checked_images w)(cid \<mapsto> n)\<rparr>
           in if alert_needed n (ImageFactor w1)
              then stat (''images'', ''repetition'')
                     (log_line Info ''Image repetition count {:6} {} at {}/{}'' w1)
              else w1))"

text \<open>\<^verbatim>\<open>embed_checker::record_seen\<close> and \<^verbatim>\<open>embed_checker::video_seen\<close>, same shape.\<close>

definition record_seen :: "string \<Rightarrow> string \<Rightarrow> string \<Rightarrow> 'm checker \<Rightarrow> 'm checker" where
  "record_seen repo path uri w0 =
     (let w = stat (''embed_checker'', ''record_checks'') w0 in
      case checked_records w uri of
        None \<Rightarrow> w\<lparr>checked_records := (checked_records w)(uri \<mapsto> 1)\<rparr>
      | Some c \<Rightarrow>
          (let n = c + 1;
               w1 = w\<lparr>checked_records := (checked_records w)(uri \<mapsto> n)\<rparr>
           in if alert_needed n (RecordFactor w1)
              then stat (''records'', ''repetition'')
                     (log_line Info ''Record repetition count {:6} {} at {}/{}'' w1)
              else w1))"

definition video_seen :: "string \<Rightarrow> string \<Rightarrow> string \<Rightarrow> 'm checker \<Rightarrow> 'm checker" where
  "video_seen repo path cid w0 =
     (let w = stat (''embed_checker'', ''video_checks'') w0 in
      case checked_videos w cid of
        None \<Rightarrow> w\<lparr>checked_videos := (checked_videos w)(cid \<mapsto> 1)\<rparr>
      | Some c \<Rightarrow>
          (let n = c + 1;
               w1 = w\<lparr>checked_videos := (checked_videos w)(cid \<mapsto> n)\<rparr>
           in if alert_needed n (VideoFactor w1)
              then stat (''videos'', ''repetition'')
                     (log_line Info ''Video repetition count {:6} {} at {}/{}'' w1)
              else w1))"

text \<open>
  \<^verbatim>\<open>embed_checker::uri_seen\<close> returns true when the insert fails, that is when the URI
  was already in the map.
\<close>

definition uri_seen :: "string \<Rightarrow> string \<Rightarrow> string \<Rightarrow> 'm checker \<Rightarrow> bool \<times> 'm checker" where
  "uri_seen repo path uri w0 =
     (let w = stat (''embed_checker'', ''link_checks'') w0 in
      case checked_uris w uri of
        None \<Rightarrow> (False, w\<lparr>checked_uris := (checked_uris w)(uri \<mapsto> 1)\<rparr>)
      | Some c \<Rightarrow>
          (let n = c + 1;
               w1 = w\<lparr>checked_uris := (checked_uris w)(uri \<mapsto> n)\<rparr>
           in (True,
               if alert_needed n (LinkFactor w1)
               then stat (''links'', ''repetition'')
                      (log_line Info ''Link repetition count {:6} {} at {}/{}'' w1)
               else w1)))"

section \<open>URI admission\<close>

text \<open>The three bytes of the UTF-8 horizontal ellipsis, \<^verbatim>\<open>"\xe2\x80\xa6"\<close>.\<close>

definition UrlSuffix :: string where
  "UrlSuffix = [CHR 0xE2, CHR 0x80, CHR 0xA6]"

definition ends_with :: "string \<Rightarrow> string \<Rightarrow> bool" where
  "ends_with s suf = suffix suf s"

definition starts_with :: "string \<Rightarrow> string \<Rightarrow> bool" where
  "starts_with s pre = prefix pre s"

text \<open>
  \<^verbatim>\<open>embed_checker::should_process_uri\<close>. \<^verbatim>\<open>boost::urls::parse_uri\<close> belongs to a library;
  it is the parameter \<open>parse_uri\<close>, which gives the error message of a failed parse
  (\<open>Inl\<close>) or the host of the parsed URL (\<open>Inr\<close>), the only component the function reads.
  \<^verbatim>\<open>substr(0, n)\<close> is \<open>take n\<close> and \<^verbatim>\<open>substr(n)\<close> is \<open>drop n\<close>; both are in range here.
\<close>

definition should_process_uri ::
  "(string \<Rightarrow> string + string) \<Rightarrow> string \<Rightarrow> 'm checker \<Rightarrow> bool \<times> 'm checker" where
  "should_process_uri parse_uri uri w =
     (let target = (if ends_with uri UrlSuffix
                    then take (length uri - length UrlSuffix) uri
                    else uri)
      in case parse_uri target of
           Inl err \<Rightarrow>
             (False, stat (''links'', ''malformed'')
                       (log_line Warning ''Skip malformed URI {}, error {}'' w))
         | Inr parsed_host \<Rightarrow>
             (let host = (if starts_with parsed_host (uri_host_prefix w)
                          then drop (length (uri_host_prefix w)) parsed_host
                          else parsed_host)
              in if host \<in> whitelist_uris w
                 then (False, stat (''links'', ''whitelist_skipped'') w)
                 else (True, w)))"

section \<open>Redirect follower\<close>

text \<open>
  The members of \<^verbatim>\<open>embed_handler\<close>; the reference to the checker is the checker state
  passed along with the handler.
\<close>

record handler =
  repo :: string
  path :: string
  root_url :: string
  uri_chain :: "string list"

text \<open>
  \<^verbatim>\<open>embed_handler::on_url_redirect\<close>. The matcher is a collaborator whose code is not at
  hand: \<open>matcher\<close> stands for \<^verbatim>\<open>all_matches_for_candidates\<close>, from a list of candidates
  (three strings each) to the list of matches. \<^verbatim>\<open>wait_enqueue\<close> appends to the queue of
  the action router. The result \<open>False\<close> is the program's \<^verbatim>\<open>return false\<close>, commented there
  as "stop following the chain"; \<open>||\<close> does not evaluate its right operand when the left
  one is true.
\<close>

definition on_url_redirect ::
  "(string \<Rightarrow> string + string) \<Rightarrow> ((string \<times> string \<times> string) list \<Rightarrow> 'm list) \<Rightarrow>
   int \<Rightarrow> string \<Rightarrow> handler \<times> 'm checker \<Rightarrow> bool \<times> handler \<times> 'm checker" where
  "on_url_redirect parse_uri matcher code url hw =
     (let h = (fst hw)\<lparr>uri_chain := uri_chain (fst hw) @ [url]\<rparr>;
          w0 = log_line Info ''Redirect code {} for {}'' (snd hw);
          (seen, w1) = uri_seen (repo h) (path h) url w0
      in if seen then (False, h, w1)
         else
           (let (process, w2) = should_process_uri parse_uri url w1
            in if process then (False, h, w2)
               else
                 (let w3 = stat (''link'', ''redirections'') w2;
                      results = matcher [(root_url h, ''redirected_url'', url)]
                  in if results \<noteq> []
                     then (True, h,
                           (log_line Info ''Redirect matched rules for {}''
                              (stat (''link'', ''redirect_matched_rule'') w3))
                           \<lparr>action_queue :=
                              action_queue w3 @ [(repo h, [(path h, results)])]\<rparr>)
                     else (True, h, w3))))"

text \<open>
  Exceptions, told apart as far as the handlers of the program tell them apart:
  \<^verbatim>\<open>restc_cpp::ConstraintException\<close>, \<^verbatim>\<open>boost::system::system_error\<close> with the value of its
  error code and whether the category is the asio misc category, and any other
  \<^verbatim>\<open>std::exception\<close>. All three derive from \<^verbatim>\<open>std::exception\<close>; each carries its
  \<^verbatim>\<open>what()\<close> text.
\<close>

datatype exn =
    ConstraintException string
  | system_error int bool string
  | std_exception string

fun what :: "exn \<Rightarrow> string" where
  "what (ConstraintException m) = m"
| "what (system_error v misc m) = m"
| "what (std_exception m) = m"

text \<open>\<^verbatim>\<open>boost::asio::error::eof\<close> has the value 2.\<close>

definition asio_eof :: int where
  "asio_eof = 2"

fun is_asio_eof :: "exn \<Rightarrow> bool" where
  "is_asio_eof (system_error v misc m) = (v = asio_eof \<and> misc)"
| "is_asio_eof (ConstraintException m) = False"
| "is_asio_eof (std_exception m) = False"

text \<open>
  The HTTP library seen from the follower, during one GET: it may deliver a redirect hop
  to the callback and go on according to the answer, \<^verbatim>\<open>ProcessWithPromise\<close> may throw
  before it hands out the future, and \<^verbatim>\<open>check_done.get()\<close> returns or rethrows what the
  request threw inside the worker.
\<close>

datatype http =
    Redirect int string "bool \<Rightarrow> http"
  | ThrowsAtCall exn
  | Completes
  | ThrowsAtGet exn

datatype outcome = CallThrew exn | GetReturned | GetThrew exn

primrec run_http ::
  "(int \<Rightarrow> string \<Rightarrow> 's \<Rightarrow> bool \<times> 's) \<Rightarrow> http \<Rightarrow> 's \<Rightarrow> outcome \<times> 's" where
  "run_http redirectFn (Redirect code url k) =
     (\<lambda>s. let (follow, s') = redirectFn code url s in run_http redirectFn (k follow) s')"
| "run_http redirectFn (ThrowsAtCall e) = (\<lambda>s. (CallThrew e, s))"
| "run_http redirectFn Completes = (\<lambda>s. (GetReturned, s))"
| "run_http redirectFn (ThrowsAtGet e) = (\<lambda>s. (GetThrew e, s))"

text \<open>The three local flags of \<^verbatim>\<open>embed_handler::operator()(embed::external)\<close>.\<close>

record flags =
  done_flag :: bool
  completed :: bool
  overflow :: bool

text \<open>
  One pass through the body of the inner \<^verbatim>\<open>while (retries < 5)\<close>. The inner \<^verbatim>\<open>try\<close> around
  \<^verbatim>\<open>check_done.get()\<close> has two handlers, \<^verbatim>\<open>system_error\<close> first and \<^verbatim>\<open>std::exception\<close> second,
  and is followed by \<^verbatim>\<open>done = true; break\<close>; the outer \<^verbatim>\<open>try\<close> has the handlers for
  \<^verbatim>\<open>ConstraintException\<close> and \<^verbatim>\<open>std::exception\<close>, and they see only what the inner ones
  did not catch. The report is \<^verbatim>\<open>account_report(_repo, link_redirection(_path, _uri_chain))\<close>.
\<close>

definition redirect_attempt ::
  "(string \<Rightarrow> string + string) \<Rightarrow> ((string \<times> string \<times> string) list \<Rightarrow> 'm list) \<Rightarrow>
   http \<Rightarrow> flags \<times> nat \<times> handler \<times> 'm checker \<Rightarrow> flags \<times> nat \<times> handler \<times> 'm checker" where
  "redirect_attempt parse_uri matcher lib st =
     (case st of (fl, retries, h0, w0) \<Rightarrow>
     (case run_http (on_url_redirect parse_uri matcher) lib (h0, w0) of
        (GetReturned, h, w) \<Rightarrow>
          (fl\<lparr>completed := True, done_flag := True\<rparr>, retries, h, w)
      | (GetThrew (system_error v misc m), h, w) \<Rightarrow>
          (if v = asio_eof \<and> misc
           then (fl\<lparr>done_flag := True\<rparr>, retries + 1, h,
                 log_line Warning ''Redirect check: asio eof, retry'' w)
           else (fl\<lparr>done_flag := True\<rparr>, retries, h,
                 log_line Error ''Redirect check {} Boost exception {}'' w))
      | (GetThrew e, h, w) \<Rightarrow>
          (fl\<lparr>done_flag := True\<rparr>, retries, h,
           log_line Error ''Redirect check {} exception {}'' w)
      | (CallThrew (ConstraintException m), h, w) \<Rightarrow>
          (fl\<lparr>overflow := True, done_flag := True\<rparr>, retries, h,
           (log_line Error ''Redirect limit exceeded for {}'' w)
           \<lparr>report_queue := report_queue w @ [(repo h, path h, uri_chain h)]\<rparr>)
      | (CallThrew e, h, w) \<Rightarrow>
          (fl\<lparr>done_flag := True\<rparr>, retries, h,
           log_line Error ''Redirect check for {} error {}'' w)))"

text \<open>
  The inner loop: every path through its body ends in \<^verbatim>\<open>break\<close>, so it runs the body once
  when \<open>retries < 5\<close> and not at all otherwise.
\<close>

definition inner_loop ::
  "(string \<Rightarrow> string + string) \<Rightarrow> ((string \<times> string \<times> string) list \<Rightarrow> 'm list) \<Rightarrow>
   http \<Rightarrow> flags \<times> nat \<times> handler \<times> 'm checker \<Rightarrow> flags \<times> nat \<times> handler \<times> 'm checker" where
  "inner_loop parse_uri matcher lib st =
     (case st of (fl, retries, h, w) \<Rightarrow>
        if retries < 5 then redirect_attempt parse_uri matcher lib st else st)"

lemma inner_loop_done:
  "done_flag (fst (inner_loop parse_uri matcher lib (fl, 0, h, w)))"
  by (simp add: inner_loop_def redirect_attempt_def
      split: prod.splits outcome.splits exn.splits)

text \<open>
  The outer \<^verbatim>\<open>while (!done)\<close>; \<open>gets k\<close> is what the library does on the \<open>k\<close>-th GET of this
  embed, and \<^verbatim>\<open>retries\<close> starts at 0 in every round.
\<close>

function follow_loop ::
  "(string \<Rightarrow> string + string) \<Rightarrow> ((string \<times> string \<times> string) list \<Rightarrow> 'm list) \<Rightarrow>
   (nat \<Rightarrow> http) \<Rightarrow> nat \<Rightarrow> flags \<times> handler \<times> 'm checker \<Rightarrow> flags \<times> handler \<times> 'm checker" where
  "follow_loop parse_uri matcher gets k st =
     (case st of (fl, h, w) \<Rightarrow>
        if done_flag fl then st
        else (case inner_loop parse_uri matcher (gets k) (fl, 0, h, w) of
                (fl', retries, h', w') \<Rightarrow>
                  follow_loop parse_uri matcher gets (Suc k) (fl', h', w')))"
  by pat_completeness auto
termination
proof (relation "measure (\<lambda>(parse_uri, matcher, gets, k, st). if done_flag (fst st) then 0 else 1)",
    goal_cases)
  case 1
  show ?case by simp
next
  case (2 parse_uri matcher gets k st fl hw h w fl' rest retries hw' h' w')
  have "done_flag fl'"
    using inner_loop_done[of parse_uri matcher "gets k" fl h w] 2(4) by (metis fst_conv)
  moreover have "\<not> done_flag (fst st)"
    using 2(1,3) by (metis fst_conv)
  ultimately show ?case by simp
qed

declare follow_loop.simps [simp del]

text \<open>
  \<^verbatim>\<open>embed_handler::operator()(embed::external const &)\<close>: admission, the loops, the outcome
  counter, the hop histogram and the closing log line.
\<close>

definition external_embed ::
  "(string \<Rightarrow> string + string) \<Rightarrow> ((string \<times> string \<times> string) list \<Rightarrow> 'm list) \<Rightarrow>
   (nat \<Rightarrow> http) \<Rightarrow> string \<Rightarrow> handler \<times> 'm checker \<Rightarrow> handler \<times> 'm checker" where
  "external_embed parse_uri matcher gets uri hw =
     (case hw of (h0, w0) \<Rightarrow>
      let (seen, w1) = uri_seen (repo h0) (path h0) uri w0
      in if seen then (h0, w1)
         else
           (let (process, w2) = should_process_uri parse_uri uri w1
            in if \<not> process then (h0, w2)
               else
                 (let h1 = h0\<lparr>root_url := uri, uri_chain := uri_chain h0 @ [uri]\<rparr>;
                      w3 = log_line Info ''Redirect check starting for {}'' w2;
                      (fl, h, w4) =
                        follow_loop parse_uri matcher gets 0
                          (\<lparr>done_flag = False, completed = False, overflow = False\<rparr>, h1, w3);
                      w5 = (if completed fl then stat (''link'', ''redirect_ok'') w4
                            else if overflow fl
                              then stat (''link'', ''redirect_limit_exceeded'') w4
                              else stat (''link'', ''redirect_error'') w4);
                      w6 = w5\<lparr>link_hops := link_hops w5 @ [length (uri_chain h)]\<rparr>
                  in (h, log_line Info ''Redirect check complete {} hops for {}'' w6))))"

section \<open>Session manager\<close>

record session_tokens =
  accessJwt :: string
  refreshJwt :: string

record login_info =
  login_identifier :: string
  password :: string

datatype post_body = login_body login_info | empty_body

text \<open>
  What the session manager calls and does not define. \<open>client_do_post\<close> is the POST
  executor of the client in the four-argument form used here (relative path, body, and the two flags
  \<^verbatim>\<open>needs_refresh_check = false\<close>, \<^verbatim>\<open>no_post_log = true\<close>, which are the same at both call
  sites); its third argument here is the token pair the session holds at the time of the
  call, which the executor reads through the accessors for the bearer header. It returns
  the decoded response or the exception it throws. \<open>expires_at\<close> is
  \<^verbatim>\<open>jwt::decode(...).get_expires_at()\<close>, which throws on a token that does not parse or has
  no expiry. Instants are tick counts of \<^verbatim>\<open>system_clock\<close>, kept as integers in the range of
  64 bits; \<open>ticks_per_ms\<close> is the number of ticks in a millisecond and
  \<open>AccessExpiryBuffer\<close> the value of \<^verbatim>\<open>AccessExpiryBuffer.count()\<close>, a constant of a header
  that is not at hand.
\<close>

record session_env =
  client_do_post :: "string \<Rightarrow> post_body \<Rightarrow> session_tokens \<Rightarrow> exn + session_tokens"
  expires_at :: "string \<Rightarrow> exn + int"
  ticks_per_ms :: int
  AccessExpiryBuffer :: int

record pds_session =
  credentials :: login_info
  tokens :: session_tokens
  access_expiry :: int
  refresh_expiry :: int

text \<open>What a call leaves behind outside the session object: the POSTs and the log.\<close>

record wire =
  posts :: "(string \<times> post_body \<times> session_tokens) list"
  session_log :: "log_entry list"

definition say :: "log_level \<Rightarrow> string \<Rightarrow> wire \<Rightarrow> wire" where
  "say lvl msg t = t\<lparr>session_log := session_log t @ [(lvl, msg)]\<rparr>"

definition post_call ::
  "session_env \<Rightarrow> string \<Rightarrow> post_body \<Rightarrow> pds_session \<Rightarrow> wire \<Rightarrow>
   (exn + session_tokens) \<times> wire" where
  "post_call env rel body s t =
     (client_do_post env rel body (tokens s), t\<lparr>posts := posts t @ [(rel, body, tokens s)]\<rparr>)"

text \<open>
  \<^verbatim>\<open>pds_session::internal_connect\<close>. The result is the exception that leaves the function,
  if any, with the session as the statements before the throw left it.
\<close>

definition internal_connect ::
  "session_env \<Rightarrow> pds_session \<times> wire \<Rightarrow> exn option \<times> pds_session \<times> wire" where
  "internal_connect env st =
     (case st of (s, t) \<Rightarrow>
     (case post_call env ''com.atproto.server.createSession''
             (login_body (credentials s)) s t of
        (Inl e, t1) \<Rightarrow> (Some e, s, t1)
      | (Inr tk, t1) \<Rightarrow>
          (let s1 = s\<lparr>tokens := tk\<rparr> in
           case expires_at env (accessJwt tk) of
             Inl e \<Rightarrow> (Some e, s1, t1)
           | Inr a \<Rightarrow>
               (let s2 = s1\<lparr>access_expiry := a\<rparr>;
                    t2 = say Info ''bsky session access token expires at {}'' t1
                in case expires_at env (refreshJwt tk) of
                     Inl e \<Rightarrow> (Some e, s2, t2)
                   | Inr r \<Rightarrow>
                       (None, s2\<lparr>refresh_expiry := r\<rparr>,
                        say Info ''bsky session refresh token expires at {}'' t2)))))"

text \<open>\<^verbatim>\<open>pds_session::connect\<close>.\<close>

definition connect ::
  "session_env \<Rightarrow> login_info \<Rightarrow> pds_session \<times> wire \<Rightarrow> exn option \<times> pds_session \<times> wire" where
  "connect env creds st = internal_connect env ((fst st)\<lparr>credentials := creds\<rparr>, snd st)"

text \<open>The body of the \<^verbatim>\<open>try\<close> block of \<^verbatim>\<open>check_refresh\<close>.\<close>

definition refresh_try ::
  "session_env \<Rightarrow> pds_session \<times> wire \<Rightarrow> exn option \<times> pds_session \<times> wire" where
  "refresh_try env st =
     (case st of (s, t0) \<Rightarrow>
     (let t = say Info ''Refresh access token, expiry in {} ms'' t0 in
     (case post_call env ''com.atproto.server.refreshSession'' empty_body s t of
        (Inl e, t1) \<Rightarrow> (Some e, s, t1)
      | (Inr tk, t1) \<Rightarrow>
          (let s1 = s\<lparr>tokens := tk\<rparr> in
           case expires_at env (accessJwt tk) of
             Inl e \<Rightarrow> (Some e, s1, t1)
           | Inr a \<Rightarrow>
               (let s2 = s1\<lparr>access_expiry := a\<rparr>;
                    t2 = say Info ''bsky session access token now expires at {}'' t1
                in case expires_at env (refreshJwt tk) of
                     Inl e \<Rightarrow> (Some e, s2, t2)
                   | Inr r \<Rightarrow>
                       (None, s2\<lparr>refresh_expiry := r\<rparr>,
                        say Info ''bsky session refresh token now expires at {}'' t2))))))"

text \<open>
  \<^verbatim>\<open>duration_cast<milliseconds>\<close> of a tick count: integer division that truncates towards
  zero.
\<close>

definition duration_cast_ms :: "int \<Rightarrow> int \<Rightarrow> int" where
  "duration_cast_ms tpm d = (if 0 \<le> d then d div tpm else - ((- d) div tpm))"

text \<open>
  Instants and durations of \<^verbatim>\<open>system_clock\<close> are 64-bit signed tick counts. \<open>int64 x\<close> is
  the value a 64-bit signed result takes when the exact result is \<open>x\<close> (two's complement
  wrap-around, which is what the machine computes where the language leaves the overflow
  undefined); the difference \<^verbatim>\<open>_access_expiry - now\<close> is the one place where
  \<^verbatim>\<open>check_refresh\<close> computes with tick counts.
\<close>

definition int64 :: "int \<Rightarrow> int" where
  "int64 x = (x + 2 ^ 63) mod 2 ^ 64 - 2 ^ 63"

text \<open>The text \<^verbatim>\<open>"error":"InvalidToken"\<close>, quotes included.\<close>

definition InvalidToken :: string where
  "InvalidToken =
     CHR 0x22 # ''error'' @ CHR 0x22 # '':'' @ CHR 0x22 # ''InvalidToken'' @ [CHR 0x22]"

text \<open>
  \<^verbatim>\<open>pds_session::check_refresh\<close> at the instant \<open>now\<close>. \<^verbatim>\<open>string_view::contains\<close> is the test
  for a contiguous substring.
\<close>

definition check_refresh ::
  "session_env \<Rightarrow> int \<Rightarrow> pds_session \<times> wire \<Rightarrow> exn option \<times> pds_session \<times> wire" where
  "check_refresh env now st =
     (case st of (s, t) \<Rightarrow>
      let t0 = (if refreshJwt (tokens s) = []
                then say Info ''Skip refresh: no tokens'' t else t);
          time_to_expiry =
            duration_cast_ms (ticks_per_ms env) (int64 (access_expiry s - now))
      in if access_expiry s < now \<or> time_to_expiry < AccessExpiryBuffer env
         then (case refresh_try env (s, t0) of
                 (None, s', t') \<Rightarrow> (None, s', t')
               | (Some e, s', t') \<Rightarrow>
                   if sublist InvalidToken (what e)
                   then internal_connect env
                          (s', say Warning ''bsky session token refresh failed, reconnect'' t')
                   else (Some e, s', t'))
         else (None, s, t0))"

text \<open>The condition under which \<^verbatim>\<open>check_refresh\<close> enters its \<^verbatim>\<open>try\<close> block.\<close>

definition refresh_needed :: "session_env \<Rightarrow> int \<Rightarrow> pds_session \<Rightarrow> bool" where
  "refresh_needed env now s \<longleftrightarrow>
     access_expiry s < now \<or>
     duration_cast_ms (ticks_per_ms env) (int64 (access_expiry s - now))
       < AccessExpiryBuffer env"

text \<open>
  \<^verbatim>\<open>check_refresh\<close> called once at each of the given instants in turn, each call on the
  session as the call before left it (an exception of a call goes to its caller and
  does not undo what the call did).
\<close>

fun check_refresh_at ::
  "session_env \<Rightarrow> int list \<Rightarrow> pds_session \<times> wire \<Rightarrow> pds_session \<times> wire" where
  "check_refresh_at env [] st = st"
| "check_refresh_at env (now # later) st =
     check_refresh_at env later (snd (check_refresh env now st))"

text \<open>The number of POSTs to \<^verbatim>\<open>refreshSession\<close> on the wire.\<close>

definition refresh_calls :: "wire \<Rightarrow> nat" where
  "refresh_calls t =
     length (filter (\<lambda>c. fst c = ''com.atproto.server.refreshSession'') (posts t))"

section \<open>Client\<close>

text \<open>
  The members of \<^verbatim>\<open>bsky::client\<close> that its operations read. Headers and bodies of the
  requests are not modelled, so \<open>use_token\<close> and \<open>service_did\<close> have no effect here.
\<close>

record client =
  host :: string
  service_did :: string
  dry_run :: bool
  use_token :: bool
  is_ready :: bool

text \<open>
  The surroundings of one client operation. Every pass through the \<^verbatim>\<open>try\<close> block of a retry
  loop either leaves the loop or adds one to \<^verbatim>\<open>retries\<close>, so the passes are numbered by
  \<^verbatim>\<open>retries\<close>: \<open>refresh_throws i\<close> is the exception thrown by \<^verbatim>\<open>_session->check_refresh()\<close> in
  pass \<open>i\<close>, if any, and \<open>reply i\<close> is what \<^verbatim>\<open>ProcessWithPromiseT(...).get()\<close> gives in pass
  \<open>i\<close>: the exception of the request or the decoded response.
\<close>

record 'r net =
  refresh_throws :: "nat \<Rightarrow> exn option"
  reply :: "nat \<Rightarrow> exn + 'r"

text \<open>
  What an operation leaves behind: the requests handed to the HTTP library (verb and
  URL), the log, and the \<^verbatim>\<open>automation\<close> counter family.
\<close>

record client_io =
  requests :: "(string \<times> string) list"
  client_log :: "log_entry list"
  automation :: counters

definition write_log :: "log_level \<Rightarrow> string \<Rightarrow> client_io \<Rightarrow> client_io" where
  "write_log lvl msg io = io\<lparr>client_log := client_log io @ [(lvl, msg)]\<rparr>"

definition send :: "'r net \<Rightarrow> nat \<Rightarrow> string \<times> string \<Rightarrow> client_io \<Rightarrow> (exn + 'r) \<times> client_io" where
  "send net i rq io = (reply net i, io\<lparr>requests := requests io @ [rq]\<rparr>)"

text \<open>A \<^verbatim>\<open>try\<close> block that starts with \<^verbatim>\<open>_session->check_refresh()\<close>.\<close>

definition refreshed ::
  "'r net \<Rightarrow> nat \<Rightarrow> client_io \<Rightarrow> (client_io \<Rightarrow> (exn + 'r) \<times> client_io) \<Rightarrow> (exn + 'r) \<times> client_io" where
  "refreshed net i io rest =
     (case refresh_throws net i of Some e \<Rightarrow> (Inl e, io) | None \<Rightarrow> rest io)"

text \<open>
  \<^verbatim>\<open>client::do_post\<close>. \<open>response\<close> is the default-constructed \<^verbatim>\<open>RESPONSE response\<close>, which is
  what \<^verbatim>\<open>return response\<close> after the loop gives when no pass assigned it.
\<close>

function do_post_loop ::
  "client \<Rightarrow> 'r net \<Rightarrow> string \<Rightarrow> bool \<Rightarrow> 'r \<Rightarrow> nat \<Rightarrow> client_io \<Rightarrow> (exn + 'r) \<times> client_io" where
  "do_post_loop c net relative_path no_log response retries io =
     (if retries < 5
      then (case refreshed net retries io
                    (\<lambda>io. send net retries (''POST'', host c @ relative_path)
                       (write_log Info (if no_log then ''Do POST for {}, body hidden''
                                   else ''Do POST for {}, body {}'') io)) of
              (Inr r, io1) \<Rightarrow>
                (Inr r, write_log Info (if no_log then ''POST for {} returned OK, result hidden''
                                        else ''POST for {} returned {}'') io1)
            | (Inl (system_error v misc m), io1) \<Rightarrow>
                (if v = asio_eof \<and> misc
                 then (if retries + 1 \<ge> 5 then (Inl (system_error v misc m), io1)
                       else do_post_loop c net relative_path no_log response (retries + 1)
                              (write_log Warning ''IoReaderImpl::ReadSome(POST): asio eof, retry'' io1))
                 else (Inl (system_error v misc m),
                       write_log Error ''POST for {} Boost exception {}'' io1))
            | (Inl e, io1) \<Rightarrow> (Inl e, write_log Error ''POST for {} exception {}'' io1))
      else (Inr response, io))"
  by pat_completeness auto
termination
  by (relation "measure (\<lambda>(c, net, relative_path, no_log, response, retries, io). 5 - retries)") auto

declare do_post_loop.simps [simp del]

definition do_post ::
  "client \<Rightarrow> 'r net \<Rightarrow> string \<Rightarrow> bool \<Rightarrow> 'r \<Rightarrow> client_io \<Rightarrow> (exn + 'r) \<times> client_io" where
  "do_post c net relative_path no_log response io =
     do_post_loop c net relative_path no_log response 0 io"

text \<open>\<^verbatim>\<open>client::create_record\<close>.\<close>

function create_record_loop ::
  "client \<Rightarrow> 'r net \<Rightarrow> 'r \<Rightarrow> nat \<Rightarrow> client_io \<Rightarrow> (exn + 'r) \<times> client_io" where
  "create_record_loop c net response retries io =
     (if retries < 5
      then (case refreshed net retries io
                    (\<lambda>io. send net retries
                       (''POST'', host c @ ''com.atproto.repo.createRecord'') io) of
              (Inr r, io1) \<Rightarrow> (Inr r, write_log Info ''createRecord for {} yielded uri {}'' io1)
            | (Inl (system_error v misc m), io1) \<Rightarrow>
                (if v = asio_eof \<and> misc
                 then create_record_loop c net response (retries + 1)
                        (write_log Warning ''IoReaderImpl::ReadSome(createListItem): asio eof, retry'' io1)
                 else (Inl (system_error v misc m), io1))
            | (Inl e, io1) \<Rightarrow> (Inl e, write_log Error ''createRecord {} exception {}'' io1))
      else (Inr response, io))"
  by pat_completeness auto
termination
  by (relation "measure (\<lambda>(c, net, response, retries, io). 5 - retries)") auto

declare create_record_loop.simps [simp del]

definition create_record ::
  "client \<Rightarrow> 'r net \<Rightarrow> 'r \<Rightarrow> client_io \<Rightarrow> (exn + 'r) \<times> client_io" where
  "create_record c net response io = create_record_loop c net response 0 io"

text \<open>\<^verbatim>\<open>client::get_record\<close>; it does not call \<^verbatim>\<open>check_refresh\<close>.\<close>

function get_record_loop ::
  "client \<Rightarrow> 'r net \<Rightarrow> 'r \<Rightarrow> nat \<Rightarrow> client_io \<Rightarrow> (exn + 'r) \<times> client_io" where
  "get_record_loop c net response retries io =
     (if retries < 5
      then (case send net retries (''GET'', host c @ ''com.atproto.repo.getRecord'') io of
              (Inr r, io1) \<Rightarrow> (Inr r, write_log Info ''getRecord OK for {} {} {}'' io1)
            | (Inl (system_error v misc m), io1) \<Rightarrow>
                (if v = asio_eof \<and> misc
                 then (if retries + 1 \<ge> 5
                       then (Inl (system_error v misc m),
                             write_log Warning ''IoReaderImpl::ReadSome(getRecord): asio eof, retry'' io1)
                       else get_record_loop c net response (retries + 1)
                              (write_log Warning ''IoReaderImpl::ReadSome(getRecord): asio eof, retry'' io1))
                 else (Inl (system_error v misc m),
                       write_log Error ''getRecord for {} {} {} Boost exception {}'' io1))
            | (Inl e, io1) \<Rightarrow> (Inl e, write_log Error ''getRecord for {} {} {} exception {}'' io1))
      else (Inr response, io))"
  by pat_completeness auto
termination
  by (relation "measure (\<lambda>(c, net, response, retries, io). 5 - retries)") auto

declare get_record_loop.simps [simp del]

definition get_record ::
  "client \<Rightarrow> 'r net \<Rightarrow> 'r \<Rightarrow> client_io \<Rightarrow> (exn + 'r) \<times> client_io" where
  "get_record c net response io = get_record_loop c net response 0 io"

text \<open>\<^verbatim>\<open>client::put_record\<close>.\<close>

function put_record_loop ::
  "client \<Rightarrow> 'r net \<Rightarrow> 'r \<Rightarrow> nat \<Rightarrow> client_io \<Rightarrow> (exn + 'r) \<times> client_io" where
  "put_record_loop c net response retries io =
     (if retries < 5
      then (case refreshed net retries io
                    (\<lambda>io. send net retries
                       (''POST'', host c @ ''com.atproto.repo.putRecord'') io) of
              (Inr r, io1) \<Rightarrow> (Inr r, write_log Info ''putRecord OK for {}'' io1)
            | (Inl (system_error v misc m), io1) \<Rightarrow>
                (if v = asio_eof \<and> misc
                 then put_record_loop c net response (retries + 1)
                        (write_log Warning ''IoReaderImpl::ReadSome(putRecord): asio eof, retry'' io1)
                 else (Inl (system_error v misc m), io1))
            | (Inl e, io1) \<Rightarrow> (Inl e, write_log Error ''putRecord for {} exception {}'' io1))
      else (Inr response, io))"
  by pat_completeness auto
termination
  by (relation "measure (\<lambda>(c, net, response, retries, io). 5 - retries)") auto

declare put_record_loop.simps [simp del]

definition put_record ::
  "client \<Rightarrow> 'r net \<Rightarrow> 'r \<Rightarrow> client_io \<Rightarrow> (exn + 'r) \<times> client_io" where
  "put_record c net response io = put_record_loop c net response 0 io"

text \<open>\<^verbatim>\<open>client::do_get\<close>; it does not call \<^verbatim>\<open>check_refresh\<close>.\<close>

function do_get_loop ::
  "client \<Rightarrow> 'r net \<Rightarrow> string \<Rightarrow> 'r \<Rightarrow> nat \<Rightarrow> client_io \<Rightarrow> (exn + 'r) \<times> client_io" where
  "do_get_loop c net relative_path response retries io =
     (if retries < 5
      then (case send net retries (''GET'', host c @ relative_path) io of
              (Inr r, io1) \<Rightarrow> (Inr r, write_log Trace ''GET OK for {}'' io1)
            | (Inl (system_error v misc m), io1) \<Rightarrow>
                (if v = asio_eof \<and> misc
                 then do_get_loop c net relative_path response (retries + 1)
                        (write_log Warning ''IoReaderImpl::ReadSome(GET): asio eof, retry'' io1)
                 else (Inl (system_error v misc m),
                       write_log Error ''GET for {} Boost exception {}'' io1))
            | (Inl e, io1) \<Rightarrow> (Inl e, write_log Error ''GET for {} exception {}'' io1))
      else (Inr response, io))"
  by pat_completeness auto
termination
  by (relation "measure (\<lambda>(c, net, relative_path, response, retries, io). 5 - retries)") auto

declare do_get_loop.simps [simp del]

definition do_get ::
  "client \<Rightarrow> 'r net \<Rightarrow> string \<Rightarrow> 'r \<Rightarrow> client_io \<Rightarrow> (exn + 'r) \<times> client_io" where
  "do_get c net relative_path response io = do_get_loop c net relative_path response 0 io"

text \<open>\<^verbatim>\<open>client::emit_event\<close>.\<close>

function emit_event_loop ::
  "client \<Rightarrow> 'r net \<Rightarrow> 'r \<Rightarrow> nat \<Rightarrow> client_io \<Rightarrow> (exn + 'r) \<times> client_io" where
  "emit_event_loop c net response retries io =
     (if retries < 5
      then (case refreshed net retries io
                    (\<lambda>io. send net retries
                       (''POST'', host c @ ''tools.ozone.moderation.emitEvent'') io) of
              (Inr r, io1) \<Rightarrow> (Inr r, write_log Info ''emit-event {} recorded at {}, reporter {} id={}'' io1)
            | (Inl (system_error v misc m), io1) \<Rightarrow>
                (if v = asio_eof \<and> misc
                 then emit_event_loop c net response (retries + 1)
                        (write_log Warning ''IoReaderImpl::ReadSome(emitEvent): asio eof, retry'' io1)
                 else (Inl (system_error v misc m),
                       write_log Error ''emitEvent {} Boost exception {}'' io1))
            | (Inl e, io1) \<Rightarrow> (Inl e, write_log Error ''emitEvent {} exception {}'' io1))
      else (Inr response, io))"
  by pat_completeness auto
termination
  by (relation "measure (\<lambda>(c, net, response, retries, io). 5 - retries)") auto

declare emit_event_loop.simps [simp del]

definition emit_event ::
  "client \<Rightarrow> 'r net \<Rightarrow> 'r \<Rightarrow> client_io \<Rightarrow> (exn + 'r) \<times> client_io" where
  "emit_event c net response io = emit_event_loop c net response 0 io"

text \<open>
  The retry loop of \<^verbatim>\<open>client::send_report\<close>; the result is the local \<^verbatim>\<open>done\<close>. Both handlers
  leave the loop with \<^verbatim>\<open>break\<close>, none rethrows. \<open>reason_name\<close> is \<^verbatim>\<open>reason.get_name()\<close>.
\<close>

function send_report_loop ::
  "client \<Rightarrow> 'r net \<Rightarrow> string \<Rightarrow> nat \<Rightarrow> client_io \<Rightarrow> bool \<times> client_io" where
  "send_report_loop c net reason_name retries io =
     (if retries < 5
      then (case refreshed net retries io
                    (\<lambda>io. send net retries
                       (''POST'', host c @ ''com.atproto.moderation.createReport'') io) of
              (Inr r, io1) \<Rightarrow>
                (True,
                 (write_log Info ''Report of {} {} recorded at {}, reporter {} id={}'' io1)
                 \<lparr>automation := increment (''report'', reason_name) (automation io1)\<rparr>)
            | (Inl (system_error v misc m), io1) \<Rightarrow>
                (if v = asio_eof \<and> misc
                 then send_report_loop c net reason_name (retries + 1)
                        (write_log Warning ''IoReaderImpl::ReadSome(createReport): asio eof, retry'' io1)
                 else (False, write_log Error ''Create report of {} {} Boost exception {}'' io1))
            | (Inl e, io1) \<Rightarrow>
                (False, write_log Error ''Create report of {} {} exception {}'' io1))
      else (False, io))"
  by pat_completeness auto
termination
  by (relation "measure (\<lambda>(c, net, reason_name, retries, io). 5 - retries)") auto

declare send_report_loop.simps [simp del]

text \<open>
  \<^verbatim>\<open>client::send_report\<close>. The function is \<^verbatim>\<open>void\<close>; the first component of the result is
  the exception that leaves it, and no path of the body throws one.
\<close>

definition send_report ::
  "client \<Rightarrow> 'r net \<Rightarrow> string \<Rightarrow> client_io \<Rightarrow> exn option \<times> client_io" where
  "send_report c net reason_name io0 =
     (let io = (if \<not> is_ready c
                then write_log Error ''Bluesky client not ready, skip report of {}'' io0
                else io0)
      in if dry_run c then (None, write_log Info ''Dry-run Report of {}'' io)
         else (case send_report_loop c net reason_name 0 io of
                 (finished, io1) \<Rightarrow>
                   (None,
                    if \<not> finished
                    then io1\<lparr>automation :=
                               increment (''report_error'', reason_name) (automation io1)\<rparr>
                    else io1)))"

section \<open>The retry policy in the abstract\<close>

text \<open>
  The outcome of pass \<open>i\<close> through a \<^verbatim>\<open>try\<close> block that starts with \<^verbatim>\<open>check_refresh\<close>: the
  exception of \<^verbatim>\<open>check_refresh\<close> if it throws, else what the request gives.
\<close>

definition pass_refreshed :: "'r net \<Rightarrow> nat \<Rightarrow> exn + 'r" where
  "pass_refreshed net i =
     (case refresh_throws net i of Some e \<Rightarrow> Inl e | None \<Rightarrow> reply net i)"

text \<open>
  The result of a retry loop as a function of the outcomes \<open>pass i\<close> of its passes alone.
  A read-EOF leads to the next pass; with \<open>throws_at_limit\<close> the fifth read-EOF is
  rethrown (the \<^verbatim>\<open>if (++retries >= 5) throw\<close> of \<^verbatim>\<open>do_post\<close> and \<^verbatim>\<open>get_record\<close>), without
  it the loop ends and the default response is returned. The loops above are compared
  with this function below.
\<close>

function retry_result :: "bool \<Rightarrow> (nat \<Rightarrow> exn + 'r) \<Rightarrow> 'r \<Rightarrow> nat \<Rightarrow> exn + 'r" where
  "retry_result throws_at_limit pass response retries =
     (if retries < 5
      then (case pass retries of
              Inr x \<Rightarrow> Inr x
            | Inl e \<Rightarrow>
                if is_asio_eof e
                then (if throws_at_limit \<and> retries + 1 \<ge> 5 then Inl e
                      else retry_result throws_at_limit pass response (retries + 1))
                else Inl e)
      else Inr response)"
  by pat_completeness auto
termination
  by (relation "measure (\<lambda>(throws_at_limit, pass, response, retries). 5 - retries)") auto

declare retry_result.simps [simp del]

section \<open>Example surroundings\<close>

text \<open>
  A small configuration and stand-ins for the collaborators, used to run the functions
  above on concrete inputs. \<open>parse_http\<close> stands in for the URL parser on the few URLs
  used below: it accepts \<^verbatim>\<open>http://host/...\<close> and gives the host.
\<close>

definition example_checker :: "string checker" where
  "example_checker =
     \<lparr>checked_images = Map.empty, checked_videos = Map.empty,
      checked_records = Map.empty, checked_uris = Map.empty,
      uri_host_prefix = ''www.'', whitelist_uris = {''example.com''},
      ImageFactor = 4, VideoFactor = 4, RecordFactor = 4, LinkFactor = 4,
      embed_stats = (\<lambda>k. 0), link_hops = [], logs = [],
      action_queue = [], report_queue = []\<rparr>"

definition parse_http :: "string \<Rightarrow> string + string" where
  "parse_http u =
     (if prefix ''http://'' u
      then Inr (takeWhile (\<lambda>c. c \<noteq> CHR ''/'') (drop 7 u))
      else Inl ''invalid scheme'')"

text \<open>
  A handler in the middle of a chain rooted at \<^verbatim>\<open>http://a.test/\<close>, a handler as the worker
  constructs it, a matcher that matches every candidate, and a library run that follows
  two redirects to a whitelisted host and then fails inside the request with the
  redirect-limit exception.
\<close>

definition example_handler :: handler where
  "example_handler =
     \<lparr>repo = ''did:plc:a'', path = ''app.bsky.feed.post/1'', root_url = ''http://a.test/'',
      uri_chain = [''http://a.test/'']\<rparr>"

definition new_handler :: handler where
  "new_handler =
     \<lparr>repo = ''did:plc:a'', path = ''app.bsky.feed.post/1'', root_url = [], uri_chain = []\<rparr>"

definition example_matcher :: "(string \<times> string \<times> string) list \<Rightarrow> string list" where
  "example_matcher candidates = [''rule'']"

definition too_many_redirects :: "nat \<Rightarrow> http" where
  "too_many_redirects k =
     Redirect 301 ''http://www.example.com/1''
       (\<lambda>follow. if follow
          then Redirect 301 ''http://www.example.com/2''
                 (\<lambda>follow. if follow
                    then ThrowsAtGet (ConstraintException ''Too many redirects'')
                    else Completes)
          else Completes)"

text \<open>
  A server for the session manager: it answers \<^verbatim>\<open>refreshSession\<close> and \<^verbatim>\<open>createSession\<close> with
  token pairs whose expiry \<open>expires_at\<close> knows; the clock ticks in milliseconds and the
  buffer is one minute. \<open>rejecting_env\<close> refuses the refresh with the invalid-token body,
  \<open>failing_env\<close> refuses every POST with a connection error, \<open>undecodable_env\<close> answers
  with an access token that does not decode.
\<close>

definition example_env :: session_env where
  "example_env =
     \<lparr>client_do_post =
        (\<lambda>rel body held.
           if rel = ''com.atproto.server.refreshSession''
           then Inr \<lparr>accessJwt = ''access-2'', refreshJwt = ''refresh-2''\<rparr>
           else Inr \<lparr>accessJwt = ''access-1'', refreshJwt = ''refresh-1''\<rparr>),
      expires_at =
        (\<lambda>jwt. if jwt = ''access-1'' then Inr 3600000
              else if jwt = ''access-2'' then Inr 7200000
              else if jwt = ''refresh-1'' \<or> jwt = ''refresh-2'' then Inr 86400000
              else Inl (std_exception ''invalid token supplied'')),
      ticks_per_ms = 1, AccessExpiryBuffer = 60000\<rparr>"

definition rejecting_env :: session_env where
  "rejecting_env =
     example_env\<lparr>client_do_post :=
        (\<lambda>rel body held.
           if rel = ''com.atproto.server.refreshSession''
           then Inl (std_exception
                  (''Request failed with HTTP error: 400 Bad Request {'' @ InvalidToken @ ''}''))
           else Inr \<lparr>accessJwt = ''access-1'', refreshJwt = ''refresh-1''\<rparr>)\<rparr>"

definition failing_env :: session_env where
  "failing_env =
     example_env\<lparr>client_do_post :=
        (\<lambda>rel body held. Inl (system_error 111 False ''Connection refused''))\<rparr>"

definition undecodable_env :: session_env where
  "undecodable_env =
     example_env\<lparr>client_do_post :=
        (\<lambda>rel body held. Inr \<lparr>accessJwt = ''garbage'', refreshJwt = ''refresh-2''\<rparr>)\<rparr>"

definition example_session :: pds_session where
  "example_session =
     \<lparr>credentials = \<lparr>login_identifier = ''mod.test'', password = ''secret''\<rparr>,
      tokens = \<lparr>accessJwt = ''access-0'', refreshJwt = ''refresh-0''\<rparr>,
      access_expiry = 60000, refresh_expiry = 86400000\<rparr>"

definition new_session :: pds_session where
  "new_session =
     \<lparr>credentials = \<lparr>login_identifier = ''mod.test'', password = ''secret''\<rparr>,
      tokens = \<lparr>accessJwt = [], refreshJwt = []\<rparr>,
      access_expiry = 0, refresh_expiry = 0\<rparr>"

definition quiet :: wire where
  "quiet = \<lparr>posts = [], session_log = []\<rparr>"

text \<open>
  A client and networks: \<open>steady_net\<close> answers every request with the response 7,
  \<open>flaky_net\<close> fails the first pass with a read-EOF and then answers, \<open>refused_net\<close> fails
  the first pass with a read-EOF and then with an HTTP error, \<open>eof_net\<close> fails every
  pass with a read-EOF.
\<close>

definition example_client :: client where
  "example_client =
     \<lparr>host = ''https://pds.test/xrpc/'', service_did = ''did:plc:labeler'',
      dry_run = False, use_token = True, is_ready = True\<rparr>"

definition silence :: client_io where
  "silence = \<lparr>requests = [], client_log = [], automation = (\<lambda>k. 0)\<rparr>"

definition steady_net :: "nat net" where
  "steady_net = \<lparr>refresh_throws = (\<lambda>i. None), reply = (\<lambda>i. Inr 7)\<rparr>"

definition eof :: exn where
  "eof = system_error 2 True ''End of file''"

definition flaky_net :: "nat net" where
  "flaky_net = \<lparr>refresh_throws = (\<lambda>i. None), reply = (\<lambda>i. if i = 0 then Inl eof else Inr 7)\<rparr>"

definition refused_net :: "nat net" where
  "refused_net =
     \<lparr>refresh_throws = (\<lambda>i. None),
      reply = (\<lambda>i. if i = 0 then Inl eof
                   else Inl (std_exception ''Request failed with HTTP error: 400 Bad Request''))\<rparr>"

definition eof_net :: "nat net" where
  "eof_net = \<lparr>refresh_throws = (\<lambda>i. None), reply = (\<lambda>i. Inl eof)\<rparr>"

section \<open>Properties of the frequency counters\<close>

lemma increment_apply: "increment k m k' = (if k' = k then m k + 1 else m k')"
  by (simp add: increment_def)

lemma stat_simps [simp]:
  "checked_images (stat k w) = checked_images w"
  "checked_videos (stat k w) = checked_videos w"
  "checked_records (stat k w) = checked_records w"
  "checked_uris (stat k w) = checked_uris w"
  "uri_host_prefix (stat k w) = uri_host_prefix w"
  "whitelist_uris (stat k w) = whitelist_uris w"
  "ImageFactor (stat k w) = ImageFactor w"
  "VideoFactor (stat k w) = VideoFactor w"
  "RecordFactor (stat k w) = RecordFactor w"
  "LinkFactor (stat k w) = LinkFactor w"
  "embed_stats (stat k w) = increment k (embed_stats w)"
  "link_hops (stat k w) = link_hops w"
  "logs (stat k w) = logs w"
  "action_queue (stat k w) = action_queue w"
  "report_queue (stat k w) = report_queue w"
  by (simp_all add: stat_def)

lemma log_line_simps [simp]:
  "checked_images (log_line l m w) = checked_images w"
  "checked_videos (log_line l m w) = checked_videos w"
  "checked_records (log_line l m w) = checked_records w"
  "checked_uris (log_line l m w) = checked_uris w"
  "uri_host_prefix (log_line l m w) = uri_host_prefix w"
  "whitelist_uris (log_line l m w) = whitelist_uris w"
  "ImageFactor (log_line l m w) = ImageFactor w"
  "VideoFactor (log_line l m w) = VideoFactor w"
  "RecordFactor (log_line l m w) = RecordFactor w"
  "LinkFactor (log_line l m w) = LinkFactor w"
  "embed_stats (log_line l m w) = embed_stats w"
  "link_hops (log_line l m w) = link_hops w"
  "logs (log_line l m w) = logs w @ [(l, m)]"
  "action_queue (log_line l m w) = action_queue w"
  "report_queue (log_line l m w) = report_queue w"
  by (simp_all add: log_line_def)

lemma alert_needed_iff:
  assumes "2 \<le> F"
  shows "alert_needed c F \<longleftrightarrow> (\<exists>k\<ge>1. c = F ^ k)"
proof
  assume "alert_needed c F"
  then show "\<exists>k\<ge>1. c = F ^ k" by (auto simp: alert_needed_def)
next
  assume "\<exists>k\<ge>1. c = F ^ k"
  then obtain k where k: "1 \<le> k" "c = F ^ k" by blast
  have "Suc 0 < F" using assms by simp
  then have "k < F ^ k" by (rule power_gt_expt)
  then have "k \<in> {1..c}" using k by simp
  then show "alert_needed c F" unfolding alert_needed_def using k(2) by (rule bexI[rotated])
qed


lemma alert_set:
  assumes F: "2 \<le> F" and N: "1 \<le> N"
  shows "{c \<in> {1..N}. alert_needed c F} = (\<lambda>k. F ^ k) ` {1..floorlog F N - 1}"
proof -
  let ?m = "floorlog F N - 1"
  have b: "F ^ ?m \<le> N" "N < F ^ floorlog F N"
    using floorlog_bounds[of N F] F N by auto
  show ?thesis
  proof (intro set_eqI iffI)
    fix c assume "c \<in> {c \<in> {1..N}. alert_needed c F}"
    then have c: "c \<le> N" and "alert_needed c F" by auto
    then obtain k where k: "1 \<le> k" "c = F ^ k" using alert_needed_iff[OF F] by blast
    have "F ^ k < F ^ floorlog F N" using c k b by simp
    then have "k < floorlog F N" using F by (simp add: power_less_imp_less_exp)
    then show "c \<in> (\<lambda>k. F ^ k) ` {1..?m}" using k by auto
  next
    fix c assume "c \<in> (\<lambda>k. F ^ k) ` {1..?m}"
    then obtain k where k: "1 \<le> k" "k \<le> ?m" "c = F ^ k" by auto
    have "F ^ k \<le> F ^ ?m" using k F by (simp add: power_increasing)
    then have "c \<le> N" using b k by simp
    moreover have "1 \<le> c" using k F by simp
    moreover have "alert_needed c F" using alert_needed_iff[OF F] k by blast
    ultimately show "c \<in> {c \<in> {1..N}. alert_needed c F}" by simp
  qed
qed


lemma alert_count:
  assumes F: "2 \<le> F" and N: "1 \<le> N"
  shows "card {c \<in> {1..N}. alert_needed c F} = nat \<lfloor>log (real F) (real N)\<rfloor>"
proof -
  have "inj_on (\<lambda>k. F ^ k) {1..floorlog F N - 1}"
    using F by (auto simp: inj_on_def)
  then have "card ((\<lambda>k. F ^ k) ` {1..floorlog F N - 1}) = floorlog F N - 1"
    by (simp add: card_image)
  moreover have "floorlog F N = nat \<lfloor>log (real F) (real N)\<rfloor> + 1"
    using F N by (simp add: floorlog_def)
  ultimately have "card ((\<lambda>k. F ^ k) ` {1..floorlog F N - 1}) = nat \<lfloor>log (real F) (real N)\<rfloor>"
    by (simp only: add_diff_cancel_right')
  then show ?thesis
    by (simp only: alert_set[OF F N])
qed

lemma alert_card_Suc:
  "card {c \<in> {1..Suc n}. alert_needed c F} =
   card {c \<in> {1..n}. alert_needed c F} + (if alert_needed (Suc n) F then 1 else 0)"
proof (cases "alert_needed (Suc n) F")
  case True
  have "{c \<in> {1..Suc n}. alert_needed c F} = insert (Suc n) {c \<in> {1..n}. alert_needed c F}"
    using True by (auto simp: le_Suc_eq)
  then show ?thesis using True by simp
next
  case False
  have "{c \<in> {1..Suc n}. alert_needed c F} = {c \<in> {1..n}. alert_needed c F}"
    using False by (auto simp: le_Suc_eq)
  then show ?thesis using False by simp
qed

lemma not_alert_one: "2 \<le> F \<Longrightarrow> \<not> alert_needed (Suc 0) F"
proof
  assume F: "2 \<le> F" and "alert_needed (Suc 0) F"
  then obtain k where k: "1 \<le> k" "Suc 0 = F ^ k" by (auto simp: alert_needed_def)
  have "1 < F ^ k" using k(1) F by (intro one_less_power) auto
  then show False using k(2) by simp
qed

lemma image_seen_fresh:
  assumes "checked_images w key = None"
  shows "checked_images (image_seen rp pa key w) key = Some 1"
    and "ImageFactor (image_seen rp pa key w) = ImageFactor w"
    and "embed_stats (image_seen rp pa key w) (''images'', ''repetition'') =
         embed_stats w (''images'', ''repetition'')"
  using assms by (simp_all add: image_seen_def increment_apply)

lemma image_seen_hit:
  assumes "checked_images w key = Some n"
  shows "checked_images (image_seen rp pa key w) key = Some (Suc n)"
    and "ImageFactor (image_seen rp pa key w) = ImageFactor w"
    and "embed_stats (image_seen rp pa key w) (''images'', ''repetition'') =
         embed_stats w (''images'', ''repetition'') +
           (if alert_needed (Suc n) (ImageFactor w) then 1 else 0)"
  using assms by (simp_all add: image_seen_def increment_apply Let_def)

lemma image_seen_next:
  assumes h: "checked_images v key = Some (Suc n)" "ImageFactor v = ImageFactor w"
    and m: "embed_stats v (''images'', ''repetition'') =
      embed_stats w (''images'', ''repetition'') +
        card {c \<in> {1..Suc n}. alert_needed c (ImageFactor w)}"
  shows "embed_stats (image_seen rp pa key v) (''images'', ''repetition'') =
      embed_stats w (''images'', ''repetition'') +
        card {c \<in> {1..Suc (Suc n)}. alert_needed c (ImageFactor w)}"
proof -
  have "embed_stats (image_seen rp pa key v) (''images'', ''repetition'') =
     embed_stats v (''images'', ''repetition'') +
       (if alert_needed (Suc (Suc n)) (ImageFactor v) then 1 else 0)"
    by (rule image_seen_hit(3)[OF h(1)])
  then show ?thesis
    by (simp only: m h(2) alert_card_Suc[of "Suc n" "ImageFactor w"] add.assoc)
qed

lemma image_seen_run:
  assumes fresh: "checked_images w key = None" and F: "2 \<le> ImageFactor w"
  shows "checked_images ((image_seen rp pa key ^^ Suc n) w) key = Some (Suc n) \<and>
         ImageFactor ((image_seen rp pa key ^^ Suc n) w) = ImageFactor w \<and>
         embed_stats ((image_seen rp pa key ^^ Suc n) w) (''images'', ''repetition'') =
           embed_stats w (''images'', ''repetition'') +
             card {c \<in> {1..Suc n}. alert_needed c (ImageFactor w)}"
proof (induction n)
  case 0
  have e: "{c \<in> {1..Suc 0}. alert_needed c (ImageFactor w)} = {}"
    using not_alert_one[OF F] by (auto simp: le_Suc_eq)
  have one: "(image_seen rp pa key ^^ Suc 0) w = image_seen rp pa key w" by simp
  show ?case
    unfolding one e using image_seen_fresh[OF fresh, of rp pa] by simp
next
  case (Suc n)
  define v where "v = (image_seen rp pa key ^^ Suc n) w"
  have unf: "(image_seen rp pa key ^^ Suc (Suc n)) w = image_seen rp pa key v"
    by (simp only: v_def funpow.simps o_apply)
  from Suc have h: "checked_images v key = Some (Suc n)" "ImageFactor v = ImageFactor w"
    and m: "embed_stats v (''images'', ''repetition'') =
      embed_stats w (''images'', ''repetition'') +
        card {c \<in> {1..Suc n}. alert_needed c (ImageFactor w)}"
    by (simp_all only: v_def)
  have b: "checked_images (image_seen rp pa key v) key = Some (Suc (Suc n))"
    by (rule image_seen_hit(1)[OF h(1)])
  have c: "ImageFactor (image_seen rp pa key v) = ImageFactor w"
    by (simp only: image_seen_hit(2)[OF h(1)] h(2))
  show ?case
    by (simp only: unf b c image_seen_next[OF h m] simp_thms)
qed

lemma image_seen_cadence:
  assumes N: "1 \<le> N" and F: "2 \<le> ImageFactor w" and fresh: "checked_images w key = None"
  shows "embed_stats ((image_seen rp pa key ^^ N) w) (''images'', ''repetition'') =
           embed_stats w (''images'', ''repetition'') +
             nat \<lfloor>log (real (ImageFactor w)) (real N)\<rfloor>"
proof -
  obtain n where n: "N = Suc n" using N by (cases N) auto
  have "embed_stats ((image_seen rp pa key ^^ Suc n) w) (''images'', ''repetition'') =
      embed_stats w (''images'', ''repetition'') +
        card {c \<in> {1..Suc n}. alert_needed c (ImageFactor w)}"
    using image_seen_run[OF fresh F, where rp=rp and pa=pa and n=n]
    by (rule conjunct2[THEN conjunct2])
  then show ?thesis
    by (simp only: n[symmetric] alert_count[OF F N])
qed

lemma video_seen_fresh:
  assumes "checked_videos w key = None"
  shows "checked_videos (video_seen rp pa key w) key = Some 1"
    and "VideoFactor (video_seen rp pa key w) = VideoFactor w"
    and "embed_stats (video_seen rp pa key w) (''videos'', ''repetition'') =
         embed_stats w (''videos'', ''repetition'')"
  using assms by (simp_all add: video_seen_def increment_apply)

lemma video_seen_hit:
  assumes "checked_videos w key = Some n"
  shows "checked_videos (video_seen rp pa key w) key = Some (Suc n)"
    and "VideoFactor (video_seen rp pa key w) = VideoFactor w"
    and "embed_stats (video_seen rp pa key w) (''videos'', ''repetition'') =
         embed_stats w (''videos'', ''repetition'') +
           (if alert_needed (Suc n) (VideoFactor w) then 1 else 0)"
  using assms by (simp_all add: video_seen_def increment_apply Let_def)

lemma video_seen_next:
  assumes h: "checked_videos v key = Some (Suc n)" "VideoFactor v = VideoFactor w"
    and m: "embed_stats v (''videos'', ''repetition'') =
      embed_stats w (''videos'', ''repetition'') +
        card {c \<in> {1..Suc n}. alert_needed c (VideoFactor w)}"
  shows "embed_stats (video_seen rp pa key v) (''videos'', ''repetition'') =
      embed_stats w (''videos'', ''repetition'') +
        card {c \<in> {1..Suc (Suc n)}. alert_needed c (VideoFactor w)}"
proof -
  have "embed_stats (video_seen rp pa key v) (''videos'', ''repetition'') =
     embed_stats v (''videos'', ''repetition'') +
       (if alert_needed (Suc (Suc n)) (VideoFactor v) then 1 else 0)"
    by (rule video_seen_hit(3)[OF h(1)])
  then show ?thesis
    by (simp only: m h(2) alert_card_Suc[of "Suc n" "VideoFactor w"] add.assoc)
qed

lemma video_seen_run:
  assumes fresh: "checked_videos w key = None" and F: "2 \<le> VideoFactor w"
  shows "checked_videos ((video_seen rp pa key ^^ Suc n) w) key = Some (Suc n) \<and>
         VideoFactor ((video_seen rp pa key ^^ Suc n) w) = VideoFactor w \<and>
         embed_stats ((video_seen rp pa key ^^ Suc n) w) (''videos'', ''repetition'') =
           embed_stats w (''videos'', ''repetition'') +
             card {c \<in> {1..Suc n}. alert_needed c (VideoFactor w)}"
proof (induction n)
  case 0
  have e: "{c \<in> {1..Suc 0}. alert_needed c (VideoFactor w)} = {}"
    using not_alert_one[OF F] by (auto simp: le_Suc_eq)
  have one: "(video_seen rp pa key ^^ Suc 0) w = video_seen rp pa key w" by simp
  show ?case
    unfolding one e using video_seen_fresh[OF fresh, of rp pa] by simp
next
  case (Suc n)
  define v where "v = (video_seen rp pa key ^^ Suc n) w"
  have unf: "(video_seen rp pa key ^^ Suc (Suc n)) w = video_seen rp pa key v"
    by (simp only: v_def funpow.simps o_apply)
  from Suc have h: "checked_videos v key = Some (Suc n)" "VideoFactor v = VideoFactor w"
    and m: "embed_stats v (''videos'', ''repetition'') =
      embed_stats w (''videos'', ''repetition'') +
        card {c \<in> {1..Suc n}. alert_needed c (VideoFactor w)}"
    by (simp_all only: v_def)
  have b: "checked_videos (video_seen rp pa key v) key = Some (Suc (Suc n))"
    by (rule video_seen_hit(1)[OF h(1)])
  have c: "VideoFactor (video_seen rp pa key v) = VideoFactor w"
    by (simp only: video_seen_hit(2)[OF h(1)] h(2))
  show ?case
    by (simp only: unf b c video_seen_next[OF h m] simp_thms)
qed

lemma video_seen_cadence:
  assumes N: "1 \<le> N" and F: "2 \<le> VideoFactor w" and fresh: "checked_videos w key = None"
  shows "embed_stats ((video_seen rp pa key ^^ N) w) (''videos'', ''repetition'') =
           embed_stats w (''videos'', ''repetition'') +
             nat \<lfloor>log (real (VideoFactor w)) (real N)\<rfloor>"
proof -
  obtain n where n: "N = Suc n" using N by (cases N) auto
  have "embed_stats ((video_seen rp pa key ^^ Suc n) w) (''videos'', ''repetition'') =
      embed_stats w (''videos'', ''repetition'') +
        card {c \<in> {1..Suc n}. alert_needed c (VideoFactor w)}"
    using video_seen_run[OF fresh F, where rp=rp and pa=pa and n=n]
    by (rule conjunct2[THEN conjunct2])
  then show ?thesis
    by (simp only: n[symmetric] alert_count[OF F N])
qed

lemma record_seen_fresh:
  assumes "checked_records w key = None"
  shows "checked_records (record_seen rp pa key w) key = Some 1"
    and "RecordFactor (record_seen rp pa key w) = RecordFactor w"
    and "embed_stats (record_seen rp pa key w) (''records'', ''repetition'') =
         embed_stats w (''records'', ''repetition'')"
  using assms by (simp_all add: record_seen_def increment_apply)

lemma record_seen_hit:
  assumes "checked_records w key = Some n"
  shows "checked_records (record_seen rp pa key w) key = Some (Suc n)"
    and "RecordFactor (record_seen rp pa key w) = RecordFactor w"
    and "embed_stats (record_seen rp pa key w) (''records'', ''repetition'') =
         embed_stats w (''records'', ''repetition'') +
           (if alert_needed (Suc n) (RecordFactor w) then 1 else 0)"
  using assms by (simp_all add: record_seen_def increment_apply Let_def)

lemma record_seen_next:
  assumes h: "checked_records v key = Some (Suc n)" "RecordFactor v = RecordFactor w"
    and m: "embed_stats v (''records'', ''repetition'') =
      embed_stats w (''records'', ''repetition'') +
        card {c \<in> {1..Suc n}. alert_needed c (RecordFactor w)}"
  shows "embed_stats (record_seen rp pa key v) (''records'', ''repetition'') =
      embed_stats w (''records'', ''repetition'') +
        card {c \<in> {1..Suc (Suc n)}. alert_needed c (RecordFactor w)}"
proof -
  have "embed_stats (record_seen rp pa key v) (''records'', ''repetition'') =
     embed_stats v (''records'', ''repetition'') +
       (if alert_needed (Suc (Suc n)) (RecordFactor v) then 1 else 0)"
    by (rule record_seen_hit(3)[OF h(1)])
  then show ?thesis
    by (simp only: m h(2) alert_card_Suc[of "Suc n" "RecordFactor w"] add.assoc)
qed

lemma record_seen_run:
  assumes fresh: "checked_records w key = None" and F: "2 \<le> RecordFactor w"
  shows "checked_records ((record_seen rp pa key ^^ Suc n) w) key = Some (Suc n) \<and>
         RecordFactor ((record_seen rp pa key ^^ Suc n) w) = RecordFactor w \<and>
         embed_stats ((record_seen rp pa key ^^ Suc n) w) (''records'', ''repetition'') =
           embed_stats w (''records'', ''repetition'') +
             card {c \<in> {1..Suc n}. alert_needed c (RecordFactor w)}"
proof (induction n)
  case 0
  have e: "{c \<in> {1..Suc 0}. alert_needed c (RecordFactor w)} = {}"
    using not_alert_one[OF F] by (auto simp: le_Suc_eq)
  have one: "(record_seen rp pa key ^^ Suc 0) w = record_seen rp pa key w" by simp
  show ?case
    unfolding one e using record_seen_fresh[OF fresh, of rp pa] by simp
next
  case (Suc n)
  define v where "v = (record_seen rp pa key ^^ Suc n) w"
  have unf: "(record_seen rp pa key ^^ Suc (Suc n)) w = record_seen rp pa key v"
    by (simp only: v_def funpow.simps o_apply)
  from Suc have h: "checked_records v key = Some (Suc n)" "RecordFactor v = RecordFactor w"
    and m: "embed_stats v (''records'', ''repetition'') =
      embed_stats w (''records'', ''repetition'') +
        card {c \<in> {1..Suc n}. alert_needed c (RecordFactor w)}"
    by (simp_all only: v_def)
  have b: "checked_records (record_seen rp pa key v) key = Some (Suc (Suc n))"
    by (rule record_seen_hit(1)[OF h(1)])
  have c: "RecordFactor (record_seen rp pa key v) = RecordFactor w"
    by (simp only: record_seen_hit(2)[OF h(1)] h(2))
  show ?case
    by (simp only: unf b c record_seen_next[OF h m] simp_thms)
qed

lemma record_seen_cadence:
  assumes N: "1 \<le> N" and F: "2 \<le> RecordFactor w" and fresh: "checked_records w key = None"
  shows "embed_stats ((record_seen rp pa key ^^ N) w) (''records'', ''repetition'') =
           embed_stats w (''records'', ''repetition'') +
             nat \<lfloor>log (real (RecordFactor w)) (real N)\<rfloor>"
proof -
  obtain n where n: "N = Suc n" using N by (cases N) auto
  have "embed_stats ((record_seen rp pa key ^^ Suc n) w) (''records'', ''repetition'') =
      embed_stats w (''records'', ''repetition'') +
        card {c \<in> {1..Suc n}. alert_needed c (RecordFactor w)}"
    using record_seen_run[OF fresh F, where rp=rp and pa=pa and n=n]
    by (rule conjunct2[THEN conjunct2])
  then show ?thesis
    by (simp only: n[symmetric] alert_count[OF F N])
qed

lemma uri_seen_fresh:
  assumes "checked_uris w key = None"
  shows "checked_uris (snd (uri_seen rp pa key w)) key = Some 1"
    and "LinkFactor (snd (uri_seen rp pa key w)) = LinkFactor w"
    and "embed_stats (snd (uri_seen rp pa key w)) (''links'', ''repetition'') =
         embed_stats w (''links'', ''repetition'')"
  using assms by (simp_all add: uri_seen_def increment_apply)

lemma uri_seen_hit:
  assumes "checked_uris w key = Some n"
  shows "checked_uris (snd (uri_seen rp pa key w)) key = Some (Suc n)"
    and "LinkFactor (snd (uri_seen rp pa key w)) = LinkFactor w"
    and "embed_stats (snd (uri_seen rp pa key w)) (''links'', ''repetition'') =
         embed_stats w (''links'', ''repetition'') +
           (if alert_needed (Suc n) (LinkFactor w) then 1 else 0)"
  using assms by (simp_all add: uri_seen_def increment_apply Let_def)

lemma uri_seen_next:
  assumes h: "checked_uris v key = Some (Suc n)" "LinkFactor v = LinkFactor w"
    and m: "embed_stats v (''links'', ''repetition'') =
      embed_stats w (''links'', ''repetition'') +
        card {c \<in> {1..Suc n}. alert_needed c (LinkFactor w)}"
  shows "embed_stats (snd (uri_seen rp pa key v)) (''links'', ''repetition'') =
      embed_stats w (''links'', ''repetition'') +
        card {c \<in> {1..Suc (Suc n)}. alert_needed c (LinkFactor w)}"
proof -
  have "embed_stats (snd (uri_seen rp pa key v)) (''links'', ''repetition'') =
     embed_stats v (''links'', ''repetition'') +
       (if alert_needed (Suc (Suc n)) (LinkFactor v) then 1 else 0)"
    by (rule uri_seen_hit(3)[OF h(1)])
  then show ?thesis
    by (simp only: m h(2) alert_card_Suc[of "Suc n" "LinkFactor w"] add.assoc)
qed

lemma uri_seen_run:
  assumes fresh: "checked_uris w key = None" and F: "2 \<le> LinkFactor w"
  shows "checked_uris (((\<lambda>w. snd (uri_seen rp pa key w)) ^^ Suc n) w) key = Some (Suc n) \<and>
         LinkFactor (((\<lambda>w. snd (uri_seen rp pa key w)) ^^ Suc n) w) = LinkFactor w \<and>
         embed_stats (((\<lambda>w. snd (uri_seen rp pa key w)) ^^ Suc n) w) (''links'', ''repetition'') =
           embed_stats w (''links'', ''repetition'') +
             card {c \<in> {1..Suc n}. alert_needed c (LinkFactor w)}"
proof (induction n)
  case 0
  have e: "{c \<in> {1..Suc 0}. alert_needed c (LinkFactor w)} = {}"
    using not_alert_one[OF F] by (auto simp: le_Suc_eq)
  have one: "((\<lambda>w. snd (uri_seen rp pa key w)) ^^ Suc 0) w = snd (uri_seen rp pa key w)" by simp
  show ?case
    unfolding one e using uri_seen_fresh[OF fresh, of rp pa] by simp
next
  case (Suc n)
  define v where "v = ((\<lambda>w. snd (uri_seen rp pa key w)) ^^ Suc n) w"
  have unf: "((\<lambda>w. snd (uri_seen rp pa key w)) ^^ Suc (Suc n)) w = snd (uri_seen rp pa key v)"
    by (simp only: v_def funpow.simps o_apply)
  from Suc have h: "checked_uris v key = Some (Suc n)" "LinkFactor v = LinkFactor w"
    and m: "embed_stats v (''links'', ''repetition'') =
      embed_stats w (''links'', ''repetition'') +
        card {c \<in> {1..Suc n}. alert_needed c (LinkFactor w)}"
    by (simp_all only: v_def)
  have b: "checked_uris (snd (uri_seen rp pa key v)) key = Some (Suc (Suc n))"
    by (rule uri_seen_hit(1)[OF h(1)])
  have c: "LinkFactor (snd (uri_seen rp pa key v)) = LinkFactor w"
    by (simp only: uri_seen_hit(2)[OF h(1)] h(2))
  show ?case
    by (simp only: unf b c uri_seen_next[OF h m] simp_thms)
qed

lemma uri_seen_cadence:
  assumes N: "1 \<le> N" and F: "2 \<le> LinkFactor w" and fresh: "checked_uris w key = None"
  shows "embed_stats (((\<lambda>w. snd (uri_seen rp pa key w)) ^^ N) w) (''links'', ''repetition'') =
           embed_stats w (''links'', ''repetition'') +
             nat \<lfloor>log (real (LinkFactor w)) (real N)\<rfloor>"
proof -
  obtain n where n: "N = Suc n" using N by (cases N) auto
  have "embed_stats (((\<lambda>w. snd (uri_seen rp pa key w)) ^^ Suc n) w) (''links'', ''repetition'') =
      embed_stats w (''links'', ''repetition'') +
        card {c \<in> {1..Suc n}. alert_needed c (LinkFactor w)}"
    using uri_seen_run[OF fresh F, where rp=rp and pa=pa and n=n]
    by (rule conjunct2[THEN conjunct2])
  then show ?thesis
    by (simp only: n[symmetric] alert_count[OF F N])
qed

text \<open>
  C6. For a factor \<open>F \<ge> 2\<close> the alert predicate holds exactly at the powers \<open>F ^ k\<close> with
  \<open>k \<ge> 1\<close>, and among the counts \<open>1, \<dots>, N\<close> it holds \<open>\<lfloor>log\<^sub>F N\<rfloor>\<close> times. In each of the
  four categories, \<open>N\<close> sightings of a key that was not in the map before raise the
  repetition counter of the category by exactly \<open>\<lfloor>log\<^sub>F N\<rfloor>\<close> for the factor \<open>F \<ge> 2\<close> of
  that category (the first sighting inserts the count 1 and is not tested).
\<close>

theorem alert_cadence:
  assumes N: "1 \<le> N"
  shows "(2 \<le> F \<longrightarrow>
            (\<forall>c. alert_needed c F \<longleftrightarrow> (\<exists>k\<ge>1. c = F ^ k)) \<and>
            card {c \<in> {1..N}. alert_needed c F} = nat \<lfloor>log (real F) (real N)\<rfloor>) \<and>
         (2 \<le> ImageFactor w \<and> checked_images w key = None \<longrightarrow>
            embed_stats ((image_seen rp pa key ^^ N) w) (''images'', ''repetition'') =
              embed_stats w (''images'', ''repetition'') +
                nat \<lfloor>log (real (ImageFactor w)) (real N)\<rfloor>) \<and>
         (2 \<le> VideoFactor w \<and> checked_videos w key = None \<longrightarrow>
            embed_stats ((video_seen rp pa key ^^ N) w) (''videos'', ''repetition'') =
              embed_stats w (''videos'', ''repetition'') +
                nat \<lfloor>log (real (VideoFactor w)) (real N)\<rfloor>) \<and>
         (2 \<le> RecordFactor w \<and> checked_records w key = None \<longrightarrow>
            embed_stats ((record_seen rp pa key ^^ N) w) (''records'', ''repetition'') =
              embed_stats w (''records'', ''repetition'') +
                nat \<lfloor>log (real (RecordFactor w)) (real N)\<rfloor>) \<and>
         (2 \<le> LinkFactor w \<and> checked_uris w key = None \<longrightarrow>
            embed_stats (((\<lambda>w. snd (uri_seen rp pa key w)) ^^ N) w) (''links'', ''repetition'') =
              embed_stats w (''links'', ''repetition'') +
                nat \<lfloor>log (real (LinkFactor w)) (real N)\<rfloor>)"
proof (intro conjI impI allI)
  fix c assume F: "2 \<le> F"
  show "alert_needed c F \<longleftrightarrow> (\<exists>k\<ge>1. c = F ^ k)"
    by (rule alert_needed_iff[OF F])
next
  assume F: "2 \<le> F"
  show "card {c \<in> {1..N}. alert_needed c F} = nat \<lfloor>log (real F) (real N)\<rfloor>"
    by (rule alert_count[OF F N])
next
  assume a: "2 \<le> ImageFactor w \<and> checked_images w key = None"
  show "embed_stats ((image_seen rp pa key ^^ N) w) (''images'', ''repetition'') =
      embed_stats w (''images'', ''repetition'') + nat \<lfloor>log (real (ImageFactor w)) (real N)\<rfloor>"
    by (rule image_seen_cadence[OF N conjunct1[OF a] conjunct2[OF a]])
next
  assume a: "2 \<le> VideoFactor w \<and> checked_videos w key = None"
  show "embed_stats ((video_seen rp pa key ^^ N) w) (''videos'', ''repetition'') =
      embed_stats w (''videos'', ''repetition'') + nat \<lfloor>log (real (VideoFactor w)) (real N)\<rfloor>"
    by (rule video_seen_cadence[OF N conjunct1[OF a] conjunct2[OF a]])
next
  assume a: "2 \<le> RecordFactor w \<and> checked_records w key = None"
  show "embed_stats ((record_seen rp pa key ^^ N) w) (''records'', ''repetition'') =
      embed_stats w (''records'', ''repetition'') + nat \<lfloor>log (real (RecordFactor w)) (real N)\<rfloor>"
    by (rule record_seen_cadence[OF N conjunct1[OF a] conjunct2[OF a]])
next
  assume a: "2 \<le> LinkFactor w \<and> checked_uris w key = None"
  show "embed_stats (((\<lambda>w. snd (uri_seen rp pa key w)) ^^ N) w) (''links'', ''repetition'') =
      embed_stats w (''links'', ''repetition'') + nat \<lfloor>log (real (LinkFactor w)) (real N)\<rfloor>"
    by (rule uri_seen_cadence[OF N conjunct1[OF a] conjunct2[OF a]])
qed

theorem alert_cadence_witness:
  "(1::nat) \<le> 17 \<and> (2::nat) \<le> 4 \<and> 2 \<le> ImageFactor example_checker \<and>
   checked_images example_checker ''C'' = None \<and>
   2 \<le> LinkFactor example_checker \<and> checked_uris example_checker ''C'' = None \<and>
   card {c \<in> {1..17}. alert_needed c 4} = 2 \<and>
   embed_stats ((image_seen ''did:plc:a'' ''app.bsky.feed.post/1'' ''C'' ^^ 17) example_checker)
     (''images'', ''repetition'') = 2 \<and>
   embed_stats (((\<lambda>w. snd (uri_seen ''did:plc:a'' ''app.bsky.feed.post/1'' ''C'' w)) ^^ 17)
       example_checker) (''links'', ''repetition'') = 2"
proof -
  have l: "nat \<lfloor>log (real 4) (real 17)\<rfloor> = 2"
    using floor_log_nat_eq_powr_iff[of 4 17 2] by simp
  have a: "(2::nat) \<le> 4" and b: "(1::nat) \<le> 17" by simp_all
  have h: "ImageFactor example_checker = 4" "LinkFactor example_checker = 4"
    and f: "checked_images example_checker ''C'' = None"
      "checked_uris example_checker ''C'' = None"
    and z: "embed_stats example_checker (''images'', ''repetition'') = 0"
      "embed_stats example_checker (''links'', ''repetition'') = 0"
    by (simp_all add: example_checker_def)
  have hi: "2 \<le> ImageFactor example_checker \<and> checked_images example_checker ''C'' = None"
    and hl: "2 \<le> LinkFactor example_checker \<and> checked_uris example_checker ''C'' = None"
    using h f by simp_all
  note t = alert_cadence[OF b, of 4 example_checker "''C''" "''did:plc:a''"
      "''app.bsky.feed.post/1''"]
  have c1: "card {c \<in> {1..17}. alert_needed c 4} = 2"
    using t[THEN conjunct1, rule_format, OF a, THEN conjunct2] by (simp only: l)
  have c2: "embed_stats
      ((image_seen ''did:plc:a'' ''app.bsky.feed.post/1'' ''C'' ^^ 17) example_checker)
      (''images'', ''repetition'') = 2"
    using t[THEN conjunct2, THEN conjunct1, rule_format, OF hi]
    by (simp only: h l z add_0)
  have c3: "embed_stats (((\<lambda>w. snd (uri_seen ''did:plc:a'' ''app.bsky.feed.post/1'' ''C'' w)) ^^ 17)
       example_checker) (''links'', ''repetition'') = 2"
    using t[THEN conjunct2, THEN conjunct2, THEN conjunct2, THEN conjunct2, rule_format, OF hl]
    by (simp only: h l z add_0)
  show ?thesis
    using a b conjunct1[OF hi] conjunct1[OF hl] f c1 c2 c3 by (intro conjI)
qed

section \<open>Properties of the session manager\<close>

lemma say_simps [simp]:
  "posts (say l m t) = posts t"
  "session_log (say l m t) = session_log t @ [(l, m)]"
  by (simp_all add: say_def)

lemma post_call_simps [simp]:
  "fst (post_call env rel body s t) = client_do_post env rel body (tokens s)"
  "posts (snd (post_call env rel body s t)) = posts t @ [(rel, body, tokens s)]"
  "session_log (snd (post_call env rel body s t)) = session_log t"
  by (simp_all add: post_call_def)

lemma internal_connect_posts:
  "posts (snd (snd (internal_connect env (s, t)))) =
     posts t @ [(''com.atproto.server.createSession'', login_body (credentials s), tokens s)]"
  by (simp add: internal_connect_def post_call_def Let_def split: sum.splits)

lemma internal_connect_ok:
  assumes "client_do_post env ''com.atproto.server.createSession'' (login_body (credentials s)) (tokens s) = Inr tk"
    and "expires_at env (accessJwt tk) = Inr a" and "expires_at env (refreshJwt tk) = Inr r"
  shows "fst (internal_connect env (s, t)) = None"
    and "fst (snd (internal_connect env (s, t))) = s\<lparr>tokens := tk, access_expiry := a, refresh_expiry := r\<rparr>"
  using assms by (simp_all add: internal_connect_def post_call_def Let_def)

lemma refresh_try_posts:
  "posts (snd (snd (refresh_try env (s, t)))) =
     posts t @ [(''com.atproto.server.refreshSession'', empty_body, tokens s)]"
  by (simp add: refresh_try_def post_call_def Let_def split: sum.splits)

lemma refresh_try_credentials:
  "credentials (fst (snd (refresh_try env (s, t)))) = credentials s"
  by (simp add: refresh_try_def post_call_def Let_def split: sum.splits)

lemma refresh_try_post_fails:
  assumes "client_do_post env ''com.atproto.server.refreshSession'' empty_body (tokens s) = Inl e"
  shows "refresh_try env (s, t) =
    (Some e, s, (say Info ''Refresh access token, expiry in {} ms'' t)
       \<lparr>posts := posts t @ [(''com.atproto.server.refreshSession'', empty_body, tokens s)]\<rparr>)"
  using assms by (simp add: refresh_try_def post_call_def Let_def)

lemma check_refresh_idle:
  assumes "\<not> refresh_needed env now s"
  shows "check_refresh env now (s, t) =
    (None, s, if refreshJwt (tokens s) = [] then say Info ''Skip refresh: no tokens'' t else t)"
  using assms by (simp add: check_refresh_def refresh_needed_def Let_def)

lemma check_refresh_active:
  assumes "refresh_needed env now s"
  shows "check_refresh env now (s, t) =
    (case refresh_try env (s, if refreshJwt (tokens s) = [] then say Info ''Skip refresh: no tokens'' t else t) of
       (None, s', t') \<Rightarrow> (None, s', t')
     | (Some e, s', t') \<Rightarrow>
         if sublist InvalidToken (what e)
         then internal_connect env (s', say Warning ''bsky session token refresh failed, reconnect'' t')
         else (Some e, s', t'))"
  using assms unfolding check_refresh_def refresh_needed_def Let_def by simp

lemma int_div_less_iff:
  fixes a j k :: int
  assumes k: "0 < k"
  shows "a div k < j \<longleftrightarrow> a < j * k"
proof
  assume "a div k < j"
  then have "a div k + 1 \<le> j" by simp
  then have "(a div k + 1) * k \<le> j * k" using k by (simp add: mult_right_mono)
  then have "(a div k) * k + k \<le> j * k" by (simp add: algebra_simps)
  moreover have "a = (a div k) * k + a mod k" by simp
  moreover have "a mod k < k" using k by simp
  ultimately show "a < j * k" by linarith
next
  assume lt: "a < j * k"
  show "a div k < j"
  proof (rule ccontr)
    assume "\<not> a div k < j"
    then have "j \<le> a div k" by simp
    then have "j * k \<le> (a div k) * k" using k by (simp add: mult_right_mono)
    moreover have "a = (a div k) * k + a mod k" by simp
    moreover have "0 \<le> a mod k" using k by simp
    ultimately show False using lt by linarith
  qed
qed

lemma int64_id: "- (2 ^ 63) \<le> x \<Longrightarrow> x < 2 ^ 63 \<Longrightarrow> int64 x = x"
  by (simp add: int64_def)

text \<open>
  At the end of the range the difference wraps. With the expiry at the largest instant
  and the clock at \<open>-1\<close> the expiry is not before the clock, the difference as computed is
  negative, and the call refreshes.
\<close>

lemma check_refresh_wraps:
  "\<not> access_expiry (example_session\<lparr>access_expiry := 2 ^ 63 - 1\<rparr>) < - 1 \<and>
   int64 (access_expiry (example_session\<lparr>access_expiry := 2 ^ 63 - 1\<rparr>) - (- 1)) = - (2 ^ 63) \<and>
   refresh_calls (snd (snd (check_refresh example_env (- 1)
      (example_session\<lparr>access_expiry := 2 ^ 63 - 1\<rparr>, quiet)))) = 1"
  by (intro conjI; code_simp)

lemma refresh_needed_iff:
  assumes "0 < ticks_per_ms env" and "0 < AccessExpiryBuffer env"
    and "- (2 ^ 63) \<le> access_expiry s - now" and "access_expiry s - now < 2 ^ 63"
  shows "refresh_needed env now s \<longleftrightarrow>
         access_expiry s < now + AccessExpiryBuffer env * ticks_per_ms env"
proof (cases "access_expiry s < now")
  case True
  have "0 < AccessExpiryBuffer env * ticks_per_ms env" using assms by simp
  with True show ?thesis by (simp add: refresh_needed_def)
next
  case False
  have w: "int64 (access_expiry s - now) = access_expiry s - now"
    by (rule int64_id[OF assms(3,4)])
  from False have "duration_cast_ms (ticks_per_ms env) (access_expiry s - now) =
      (access_expiry s - now) div ticks_per_ms env"
    by (simp add: duration_cast_ms_def)
  moreover have "(access_expiry s - now < AccessExpiryBuffer env * ticks_per_ms env) =
      (access_expiry s < now + AccessExpiryBuffer env * ticks_per_ms env)"
    by linarith
  ultimately show ?thesis
    using False int_div_less_iff[OF assms(1), of "access_expiry s - now" "AccessExpiryBuffer env"]
    by (simp add: refresh_needed_def w)
qed

lemma refresh_calls_say [simp]: "refresh_calls (say l m t) = refresh_calls t"
  by (simp add: refresh_calls_def)

lemma internal_connect_refresh_calls:
  "refresh_calls (snd (snd (internal_connect env (s, t)))) = refresh_calls t"
  by (simp add: refresh_calls_def internal_connect_posts)

lemma refresh_try_refresh_calls:
  "refresh_calls (snd (snd (refresh_try env (s, t)))) = refresh_calls t + 1"
  by (simp add: refresh_calls_def refresh_try_posts)

lemma check_refresh_refresh_calls:
  "refresh_calls (snd (snd (check_refresh env now (s, t)))) =
     refresh_calls t + (if refresh_needed env now s then 1 else 0)"
proof (cases "refresh_needed env now s")
  case False
  then show ?thesis by (simp add: check_refresh_idle)
next
  case True
  let ?t0 = "if refreshJwt (tokens s) = [] then say Info ''Skip refresh: no tokens'' t else t"
  obtain x s1 t1 where r: "refresh_try env (s, ?t0) = (x, s1, t1)"
    by (metis prod_cases3)
  have c: "refresh_calls t1 = refresh_calls t + 1"
    using refresh_try_refresh_calls[of env s ?t0] r by simp
  show ?thesis
  proof (cases x)
    case None
    with True r c show ?thesis by (simp add: check_refresh_active)
  next
    case (Some e)
    with True r c show ?thesis
      by (simp add: check_refresh_active internal_connect_refresh_calls)
  qed
qed

lemma refresh_try_ok:
  assumes "client_do_post env ''com.atproto.server.refreshSession'' empty_body (tokens s) = Inr tk"
    and "expires_at env (accessJwt tk) = Inr a" and "expires_at env (refreshJwt tk) = Inr r"
  shows "fst (refresh_try env (s, t)) = None"
    and "fst (snd (refresh_try env (s, t))) =
           s\<lparr>tokens := tk, access_expiry := a, refresh_expiry := r\<rparr>"
  using assms by (simp_all add: refresh_try_def post_call_def Let_def)

lemma check_refresh_ok:
  assumes need: "refresh_needed env now s"
    and "client_do_post env ''com.atproto.server.refreshSession'' empty_body (tokens s) = Inr tk"
    and "expires_at env (accessJwt tk) = Inr a" and "expires_at env (refreshJwt tk) = Inr r"
  shows "fst (check_refresh env now (s, t)) = None"
    and "fst (snd (check_refresh env now (s, t))) =
           s\<lparr>tokens := tk, access_expiry := a, refresh_expiry := r\<rparr>"
    and "posts (snd (snd (check_refresh env now (s, t)))) =
           posts t @ [(''com.atproto.server.refreshSession'', empty_body, tokens s)]"
proof -
  let ?t0 = "if refreshJwt (tokens s) = [] then say Info ''Skip refresh: no tokens'' t else t"
  obtain x s1 t1 where r: "refresh_try env (s, ?t0) = (x, s1, t1)"
    by (metis prod_cases3)
  have x: "x = None" and s1: "s1 = s\<lparr>tokens := tk, access_expiry := a, refresh_expiry := r\<rparr>"
    using refresh_try_ok[OF assms(2-4), of ?t0] r by simp_all
  have p: "posts t1 = posts t @ [(''com.atproto.server.refreshSession'', empty_body, tokens s)]"
    using refresh_try_posts[of env s ?t0] r by simp
  have c: "check_refresh env now (s, t) = (None, s1, t1)"
    using need r x by (simp add: check_refresh_active)
  show "fst (check_refresh env now (s, t)) = None"
    and "fst (snd (check_refresh env now (s, t))) =
           s\<lparr>tokens := tk, access_expiry := a, refresh_expiry := r\<rparr>"
    and "posts (snd (snd (check_refresh env now (s, t)))) =
           posts t @ [(''com.atproto.server.refreshSession'', empty_body, tokens s)]"
    by (simp_all add: c s1 p)
qed

lemma check_refresh_at_idle:
  assumes "\<forall>n \<in> set nows. \<not> refresh_needed env n s"
  shows "fst (check_refresh_at env nows (s, t)) = s \<and>
         posts (snd (check_refresh_at env nows (s, t))) = posts t"
  using assms
proof (induction nows arbitrary: t)
  case Nil
  show ?case by simp
next
  case (Cons n nows)
  then have idle: "\<not> refresh_needed env n s" and rest: "\<forall>n \<in> set nows. \<not> refresh_needed env n s"
    by simp_all
  let ?t = "if refreshJwt (tokens s) = [] then say Info ''Skip refresh: no tokens'' t else t"
  have "check_refresh_at env (n # nows) (s, t) = check_refresh_at env nows (s, ?t)"
    by (simp add: check_refresh_idle[OF idle])
  moreover have "posts ?t = posts t" by simp
  ultimately show ?case using Cons.IH[OF rest, of ?t] by simp
qed

text \<open>
  C5, as the program has it. Let the buffer \<open>B\<close> and the number of ticks per millisecond
  be positive and let \<open>E - now\<close> fit into 64 bits. A call of \<^verbatim>\<open>check_refresh\<close> at the instant
  \<open>now\<close> adds exactly one POST to \<^verbatim>\<open>refreshSession\<close> when \<open>E < now + B\<close> (buffer taken in
  ticks) and none otherwise: the comparison is strict. When that POST answers with a
  token pair that decodes, the call returns normally and the session holds the pair, the
  decoded access expiry \<open>a\<close> and the decoded refresh expiry; calls at any later instants
  \<open>n\<close> with \<open>n + B \<le> a\<close> then leave the session as it is and issue no request, so that
  the requests of all these calls together are the one POST to \<^verbatim>\<open>refreshSession\<close>.
\<close>

theorem refresh_trigger:
  assumes tpm: "0 < ticks_per_ms env" and buf: "0 < AccessExpiryBuffer env"
    and lo: "- (2 ^ 63) \<le> access_expiry s - now" and hi: "access_expiry s - now < 2 ^ 63"
  shows "refresh_calls (snd (snd (check_refresh env now (s, t)))) =
           refresh_calls t +
             (if access_expiry s < now + AccessExpiryBuffer env * ticks_per_ms env
              then 1 else 0) \<and>
         (\<forall>tk a r nows.
            access_expiry s < now + AccessExpiryBuffer env * ticks_per_ms env \<and>
            client_do_post env ''com.atproto.server.refreshSession'' empty_body (tokens s) = Inr tk \<and>
            expires_at env (accessJwt tk) = Inr a \<and> expires_at env (refreshJwt tk) = Inr r \<and>
            (\<forall>n \<in> set nows.
               n + AccessExpiryBuffer env * ticks_per_ms env \<le> a \<and> a - n < 2 ^ 63) \<longrightarrow>
            fst (check_refresh env now (s, t)) = None \<and>
            fst (snd (check_refresh env now (s, t))) =
              s\<lparr>tokens := tk, access_expiry := a, refresh_expiry := r\<rparr> \<and>
            fst (check_refresh_at env nows (snd (check_refresh env now (s, t)))) =
              s\<lparr>tokens := tk, access_expiry := a, refresh_expiry := r\<rparr> \<and>
            posts (snd (check_refresh_at env nows (snd (check_refresh env now (s, t))))) =
              posts t @ [(''com.atproto.server.refreshSession'', empty_body, tokens s)])"
proof (intro conjI allI impI)
  show "refresh_calls (snd (snd (check_refresh env now (s, t)))) =
      refresh_calls t +
        (if access_expiry s < now + AccessExpiryBuffer env * ticks_per_ms env then 1 else 0)"
    by (simp only: check_refresh_refresh_calls refresh_needed_iff[OF tpm buf lo hi])
next
  fix tk :: session_tokens and a r :: int and nows :: "int list"
  let ?s' = "s\<lparr>tokens := tk, access_expiry := a, refresh_expiry := r\<rparr>"
  assume h: "access_expiry s < now + AccessExpiryBuffer env * ticks_per_ms env \<and>
            client_do_post env ''com.atproto.server.refreshSession'' empty_body (tokens s) = Inr tk \<and>
            expires_at env (accessJwt tk) = Inr a \<and> expires_at env (refreshJwt tk) = Inr r \<and>
            (\<forall>n \<in> set nows.
               n + AccessExpiryBuffer env * ticks_per_ms env \<le> a \<and> a - n < 2 ^ 63)"
  then have need: "refresh_needed env now s"
    by (simp add: refresh_needed_iff[OF tpm buf lo hi])
  from h have p: "client_do_post env ''com.atproto.server.refreshSession'' empty_body (tokens s) = Inr tk"
    and da: "expires_at env (accessJwt tk) = Inr a" and dr: "expires_at env (refreshJwt tk) = Inr r"
    by simp_all
  note ok = check_refresh_ok[OF need p da dr, of t]
  show 1: "fst (check_refresh env now (s, t)) = None" by (rule ok(1))
  show 2: "fst (snd (check_refresh env now (s, t))) = ?s'" by (rule ok(2))
  have pos: "0 < AccessExpiryBuffer env * ticks_per_ms env" using tpm buf by simp
  have idle: "\<forall>n \<in> set nows. \<not> refresh_needed env n ?s'"
  proof
    fix n assume n: "n \<in> set nows"
    with h have le: "n + AccessExpiryBuffer env * ticks_per_ms env \<le> a" and up: "a - n < 2 ^ 63"
      by simp_all
    have l: "- (2 ^ 63) \<le> access_expiry ?s' - n" using le pos by simp
    have u: "access_expiry ?s' - n < 2 ^ 63" using up by simp
    show "\<not> refresh_needed env n ?s'"
      using le by (simp add: refresh_needed_iff[OF tpm buf l u])
  qed
  have st: "snd (check_refresh env now (s, t)) = (?s', snd (snd (check_refresh env now (s, t))))"
    using 2 by (metis prod.collapse)
  note at = check_refresh_at_idle[OF idle, of "snd (snd (check_refresh env now (s, t)))"]
  show "fst (check_refresh_at env nows (snd (check_refresh env now (s, t)))) = ?s'"
    using at by (simp only: st[symmetric])
  show "posts (snd (check_refresh_at env nows (snd (check_refresh env now (s, t))))) =
      posts t @ [(''com.atproto.server.refreshSession'', empty_body, tokens s)]"
    using at ok(3) by (simp only: st[symmetric])
qed

theorem refresh_trigger_witness:
  "0 < ticks_per_ms example_env \<and> 0 < AccessExpiryBuffer example_env \<and>
   - (2 ^ 63) \<le> access_expiry example_session - 1 \<and> access_expiry example_session - 1 < 2 ^ 63 \<and>
   refresh_calls (snd (snd (check_refresh example_env 1 (example_session, quiet)))) = 1 \<and>
   access_expiry (fst (snd (check_refresh example_env 1 (example_session, quiet)))) = 7200000 \<and>
   posts (snd (check_refresh_at example_env [5000, 60000, 7140000]
            (snd (check_refresh example_env 1 (example_session, quiet))))) =
     [(''com.atproto.server.refreshSession'', empty_body, \<lparr>accessJwt = ''access-0'', refreshJwt = ''refresh-0''\<rparr>)]"
proof -
  let ?tk = "\<lparr>accessJwt = ''access-2'', refreshJwt = ''refresh-2''\<rparr>"
  have a: "0 < ticks_per_ms example_env" and b: "0 < AccessExpiryBuffer example_env"
    by (simp_all add: example_env_def)
  have lo: "- (2 ^ 63) \<le> access_expiry example_session - 1"
    and hi: "access_expiry example_session - 1 < 2 ^ 63"
    by (simp_all add: example_session_def)
  have q: "refresh_calls quiet = 0" "posts quiet = []"
    "tokens example_session = \<lparr>accessJwt = ''access-0'', refreshJwt = ''refresh-0''\<rparr>"
    by (simp_all add: quiet_def refresh_calls_def example_session_def)
  have due: "access_expiry example_session <
      1 + AccessExpiryBuffer example_env * ticks_per_ms example_env"
    by (simp add: example_session_def example_env_def)
  have h: "access_expiry example_session <
        1 + AccessExpiryBuffer example_env * ticks_per_ms example_env \<and>
      client_do_post example_env
          ''com.atproto.server.refreshSession'' empty_body (tokens example_session) = Inr ?tk \<and>
      expires_at example_env (accessJwt ?tk) = Inr 7200000 \<and>
      expires_at example_env (refreshJwt ?tk) = Inr 86400000 \<and>
      (\<forall>n \<in> set [5000, 60000, 7140000].
         n + AccessExpiryBuffer example_env * ticks_per_ms example_env \<le> 7200000 \<and>
         7200000 - n < 2 ^ 63)"
    by (simp add: example_session_def example_env_def)
  note th = refresh_trigger[OF a b lo hi, of quiet]
  have c1: "refresh_calls (snd (snd (check_refresh example_env 1 (example_session, quiet)))) = 1"
    using th[THEN conjunct1] due by (simp add: q)
  note c2 = th[THEN conjunct2, rule_format, OF h]
  have c3: "access_expiry (fst (snd (check_refresh example_env 1 (example_session, quiet)))) =
      7200000"
    using c2 by simp
  have c4: "posts (snd (check_refresh_at example_env [5000, 60000, 7140000]
            (snd (check_refresh example_env 1 (example_session, quiet))))) =
     [(''com.atproto.server.refreshSession'', empty_body, \<lparr>accessJwt = ''access-0'', refreshJwt = ''refresh-0''\<rparr>)]"
    using c2 by (simp add: q)
  show ?thesis using a b lo hi c1 c3 c4 by (intro conjI)
qed

text \<open>
  C5 as stated fails on the boundary: with \<open>now + B = E\<close> the specification asks for a
  refresh, and the program issues no request.
\<close>

theorem refresh_trigger_counterexample:
  "access_expiry example_session \<le> 0 + AccessExpiryBuffer example_env * ticks_per_ms example_env \<and>
   refresh_calls (snd (snd (check_refresh example_env 0 (example_session, quiet)))) = 0 \<and>
   posts (snd (snd (check_refresh example_env 0 (example_session, quiet)))) = []"
  by code_simp

lemma internal_connect_log:
  "prefix (session_log t) (session_log (snd (snd (internal_connect env (s, t)))))"
  by (simp add: internal_connect_def post_call_def Let_def split: sum.splits)

lemma refresh_try_log:
  "prefix (session_log t @ [(Info, ''Refresh access token, expiry in {} ms'')])
     (session_log (snd (snd (refresh_try env (s, t)))))"
  by (simp add: refresh_try_def post_call_def Let_def split: sum.splits)

lemma internal_connect_posts_prefix:
  "prefix (posts t) (posts (snd (snd (internal_connect env (s, t)))))"
  by (simp add: internal_connect_posts)

lemma refresh_try_outcome:
  "fst (refresh_try env (s, t)) = fst (refresh_try env (s, t'))"
  by (simp add: refresh_try_def post_call_def Let_def split: sum.splits)

lemma check_refresh_first_steps:
  assumes need: "refresh_needed env now s"
  shows "prefix ((if refreshJwt (tokens s) = []
                  then session_log t @ [(Info, ''Skip refresh: no tokens'')]
                  else session_log t) @ [(Info, ''Refresh access token, expiry in {} ms'')])
           (session_log (snd (snd (check_refresh env now (s, t)))))"
    and "prefix (posts t @ [(''com.atproto.server.refreshSession'', empty_body, tokens s)])
           (posts (snd (snd (check_refresh env now (s, t)))))"
proof -
  let ?t0 = "if refreshJwt (tokens s) = [] then say Info ''Skip refresh: no tokens'' t else t"
  obtain x s1 t1 where r: "refresh_try env (s, ?t0) = (x, s1, t1)"
    by (metis prod_cases3)
  have l: "prefix (session_log ?t0 @ [(Info, ''Refresh access token, expiry in {} ms'')])
      (session_log t1)"
    using refresh_try_log[of ?t0 env s] r by simp
  have p: "posts t1 = posts ?t0 @ [(''com.atproto.server.refreshSession'', empty_body, tokens s)]"
    using refresh_try_posts[of env s ?t0] r by simp
  have l0: "session_log ?t0 = (if refreshJwt (tokens s) = []
      then session_log t @ [(Info, ''Skip refresh: no tokens'')] else session_log t)"
    and p0: "posts ?t0 = posts t"
    by simp_all
  let ?w = "say Warning ''bsky session token refresh failed, reconnect'' t1"
  have lw: "prefix (session_log t1) (session_log (snd (snd (internal_connect env (s1, ?w)))))"
  proof -
    have "prefix (session_log t1) (session_log ?w)" by simp
    then show ?thesis
      using internal_connect_log[of ?w env s1] by (rule prefix_order.order_trans)
  qed
  have pw: "prefix (posts t1) (posts (snd (snd (internal_connect env (s1, ?w)))))"
    using internal_connect_posts_prefix[of ?w env s1] by simp
  have res: "snd (snd (check_refresh env now (s, t))) = t1 \<or>
      snd (snd (check_refresh env now (s, t))) = snd (snd (internal_connect env (s1, ?w)))"
    using need r by (cases x) (simp_all add: check_refresh_active)
  have l': "prefix ((if refreshJwt (tokens s) = []
                  then session_log t @ [(Info, ''Skip refresh: no tokens'')]
                  else session_log t) @ [(Info, ''Refresh access token, expiry in {} ms'')])
      (session_log t1)"
    using l by (simp only: l0)
  have p': "prefix (posts t @ [(''com.atproto.server.refreshSession'', empty_body, tokens s)])
      (posts t1)"
    by (simp only: p p0 prefix_order.order_refl)
  from res show "prefix ((if refreshJwt (tokens s) = []
                  then session_log t @ [(Info, ''Skip refresh: no tokens'')]
                  else session_log t) @ [(Info, ''Refresh access token, expiry in {} ms'')])
           (session_log (snd (snd (check_refresh env now (s, t)))))"
  proof
    assume "snd (snd (check_refresh env now (s, t))) = t1"
    then show ?thesis using l' by (simp only:)
  next
    assume "snd (snd (check_refresh env now (s, t))) = snd (snd (internal_connect env (s1, ?w)))"
    then show ?thesis using prefix_order.order_trans[OF l' lw] by (simp only:)
  qed
  from res show "prefix (posts t @ [(''com.atproto.server.refreshSession'', empty_body, tokens s)])
           (posts (snd (snd (check_refresh env now (s, t)))))"
  proof
    assume "snd (snd (check_refresh env now (s, t))) = t1"
    then show ?thesis using p' by (simp only:)
  next
    assume "snd (snd (check_refresh env now (s, t))) = snd (snd (internal_connect env (s1, ?w)))"
    then show ?thesis using prefix_order.order_trans[OF p' pw] by (simp only:)
  qed
qed

text \<open>
  C10. When the stored refresh token is empty and the access expiry lies in the past,
  \<^verbatim>\<open>check_refresh\<close> logs the skip message and goes on: the next log line is that of the
  refresh and the next request is the POST to \<^verbatim>\<open>refreshSession\<close>, made while the session
  holds the empty token pair.
\<close>

theorem check_refresh_without_tokens:
  assumes "refreshJwt (tokens s) = []" and "access_expiry s < now"
  shows "prefix (session_log t @ [(Info, ''Skip refresh: no tokens''),
                                   (Info, ''Refresh access token, expiry in {} ms'')])
           (session_log (snd (snd (check_refresh env now (s, t))))) \<and>
         prefix (posts t @ [(''com.atproto.server.refreshSession'', empty_body, tokens s)])
           (posts (snd (snd (check_refresh env now (s, t)))))"
proof -
  have need: "refresh_needed env now s" using assms(2) by (simp add: refresh_needed_def)
  show ?thesis
    using check_refresh_first_steps[OF need, of t] assms(1) by simp
qed

theorem check_refresh_without_tokens_witness:
  "refreshJwt (tokens new_session) = [] \<and> access_expiry new_session < 1700000000000 \<and>
   prefix [(Info, ''Skip refresh: no tokens''), (Info, ''Refresh access token, expiry in {} ms'')]
     (session_log (snd (snd (check_refresh example_env 1700000000000 (new_session, quiet))))) \<and>
   prefix [(''com.atproto.server.refreshSession'', empty_body, \<lparr>accessJwt = [], refreshJwt = []\<rparr>)]
     (posts (snd (snd (check_refresh example_env 1700000000000 (new_session, quiet)))))"
proof -
  have a: "refreshJwt (tokens new_session) = []"
    and b: "access_expiry new_session < 1700000000000"
    by (simp_all add: new_session_def)
  have q: "session_log quiet = []" "posts quiet = []"
    "tokens new_session = \<lparr>accessJwt = [], refreshJwt = []\<rparr>"
    by (simp_all add: quiet_def new_session_def)
  show ?thesis
    using check_refresh_without_tokens[OF a b, of quiet example_env] a b
    by (simp only: q append_Nil simp_thms)
qed

lemma refresh_try_throws:
  assumes "client_do_post env ''com.atproto.server.refreshSession'' empty_body (tokens s) = Inl e \<and> s1 = s \<or>
      (\<exists>tk. client_do_post env ''com.atproto.server.refreshSession'' empty_body (tokens s) = Inr tk \<and>
            expires_at env (accessJwt tk) = Inl e \<and> s1 = s\<lparr>tokens := tk\<rparr>) \<or>
      (\<exists>tk a. client_do_post env ''com.atproto.server.refreshSession'' empty_body (tokens s) = Inr tk \<and>
            expires_at env (accessJwt tk) = Inr a \<and> expires_at env (refreshJwt tk) = Inl e \<and>
            s1 = s\<lparr>tokens := tk, access_expiry := a\<rparr>)"
  shows "fst (refresh_try env (s, t)) = Some e"
    and "fst (snd (refresh_try env (s, t))) = s1"
  using assms by (auto simp: refresh_try_def post_call_def Let_def)

lemma internal_connect_ok_from:
  assumes "client_do_post env ''com.atproto.server.createSession'' (login_body (credentials s1)) (tokens s1) = Inr tk"
    and "expires_at env (accessJwt tk) = Inr a" and "expires_at env (refreshJwt tk) = Inr r"
  shows "fst (internal_connect env (s1, t)) = None"
    and "fst (snd (internal_connect env (s1, t))) =
           s1\<lparr>tokens := tk, access_expiry := a, refresh_expiry := r\<rparr>"
  using assms by (simp_all add: internal_connect_def post_call_def Let_def)

text \<open>
  C4. Let a refresh be due and let the exception \<open>e\<close> leave the \<^verbatim>\<open>try\<close> block of
  \<^verbatim>\<open>check_refresh\<close>: thrown by the POST to \<^verbatim>\<open>refreshSession\<close>, or, after that POST has
  answered, by the decoding of the access token or of the refresh token; \<open>s1\<close> is the
  session as the statements before the throw left it. If the text of \<open>e\<close> contains
  \<^verbatim>\<open>"error":"InvalidToken"\<close>, the requests of the call are the POST to \<^verbatim>\<open>refreshSession\<close>
  followed by exactly one POST to \<^verbatim>\<open>createSession\<close> with the stored credentials, and when
  that one answers with tokens that decode, the call returns normally and the session
  holds these tokens and their expiry instants. If the text does not contain it, \<open>e\<close>
  itself leaves \<^verbatim>\<open>check_refresh\<close>, the session is \<open>s1\<close> and no further request is made.
\<close>

theorem invalid_token_reconnect:
  assumes need: "access_expiry s < now \<or>
      duration_cast_ms (ticks_per_ms env) (int64 (access_expiry s - now)) < AccessExpiryBuffer env"
    and thrown: "client_do_post env ''com.atproto.server.refreshSession'' empty_body (tokens s) = Inl e \<and> s1 = s \<or>
      (\<exists>tk. client_do_post env ''com.atproto.server.refreshSession'' empty_body (tokens s) = Inr tk \<and>
            expires_at env (accessJwt tk) = Inl e \<and> s1 = s\<lparr>tokens := tk\<rparr>) \<or>
      (\<exists>tk a. client_do_post env ''com.atproto.server.refreshSession'' empty_body (tokens s) = Inr tk \<and>
            expires_at env (accessJwt tk) = Inr a \<and> expires_at env (refreshJwt tk) = Inl e \<and>
            s1 = s\<lparr>tokens := tk, access_expiry := a\<rparr>)"
  shows "(sublist InvalidToken (what e) \<longrightarrow>
            posts (snd (snd (check_refresh env now (s, t)))) =
              posts t @ [(''com.atproto.server.refreshSession'', empty_body, tokens s),
                         (''com.atproto.server.createSession'', login_body (credentials s), tokens s1)] \<and>
            (\<forall>tk a r.
               client_do_post env ''com.atproto.server.createSession'' (login_body (credentials s)) (tokens s1) = Inr tk \<and>
               expires_at env (accessJwt tk) = Inr a \<and> expires_at env (refreshJwt tk) = Inr r \<longrightarrow>
               fst (check_refresh env now (s, t)) = None \<and>
               fst (snd (check_refresh env now (s, t))) =
                 s\<lparr>tokens := tk, access_expiry := a, refresh_expiry := r\<rparr>)) \<and>
         (\<not> sublist InvalidToken (what e) \<longrightarrow>
            fst (check_refresh env now (s, t)) = Some e \<and>
            fst (snd (check_refresh env now (s, t))) = s1 \<and>
            posts (snd (snd (check_refresh env now (s, t)))) =
              posts t @ [(''com.atproto.server.refreshSession'', empty_body, tokens s)])"
proof -
  let ?t0 = "if refreshJwt (tokens s) = [] then say Info ''Skip refresh: no tokens'' t else t"
  have need': "refresh_needed env now s" using need by (simp add: refresh_needed_def)
  obtain x s' t1 where r: "refresh_try env (s, ?t0) = (x, s', t1)"
    by (metis prod_cases3)
  have x: "x = Some e" and s': "s' = s1"
    using refresh_try_throws[OF thrown, of ?t0] r by simp_all
  have p1: "posts t1 = posts t @ [(''com.atproto.server.refreshSession'', empty_body, tokens s)]"
    using refresh_try_posts[of env s ?t0] r by simp
  have cr: "credentials s1 = credentials s"
    using refresh_try_credentials[of env s ?t0] r s' by simp
  have upd: "s1\<lparr>tokens := tk, access_expiry := a, refresh_expiry := r\<rparr> =
      s\<lparr>tokens := tk, access_expiry := a, refresh_expiry := r\<rparr>" for tk a r
    using thrown by auto
  let ?w = "say Warning ''bsky session token refresh failed, reconnect'' t1"
  show ?thesis
  proof (intro conjI impI allI)
    assume m: "sublist InvalidToken (what e)"
    then have c: "check_refresh env now (s, t) = internal_connect env (s1, ?w)"
      using need' r x s' by (simp add: check_refresh_active)
    show "posts (snd (snd (check_refresh env now (s, t)))) =
        posts t @ [(''com.atproto.server.refreshSession'', empty_body, tokens s), (''com.atproto.server.createSession'', login_body (credentials s), tokens s1)]"
      by (simp add: c internal_connect_posts p1 cr)
    fix tk a r
    assume ok: "client_do_post env ''com.atproto.server.createSession'' (login_body (credentials s)) (tokens s1) = Inr tk \<and>
               expires_at env (accessJwt tk) = Inr a \<and> expires_at env (refreshJwt tk) = Inr r"
    then have o1: "client_do_post env ''com.atproto.server.createSession'' (login_body (credentials s1)) (tokens s1) = Inr tk"
      and o2: "expires_at env (accessJwt tk) = Inr a"
      and o3: "expires_at env (refreshJwt tk) = Inr r"
      by (simp_all add: cr)
    show "fst (check_refresh env now (s, t)) = None"
      unfolding c by (rule internal_connect_ok_from(1)[OF o1 o2 o3])
    show "fst (snd (check_refresh env now (s, t))) =
        s\<lparr>tokens := tk, access_expiry := a, refresh_expiry := r\<rparr>"
      unfolding c internal_connect_ok_from(2)[OF o1 o2 o3] by (rule upd)
  next
    assume m: "\<not> sublist InvalidToken (what e)"
    then have c: "check_refresh env now (s, t) = (Some e, s1, t1)"
      using need' r x s' by (simp add: check_refresh_active)
    show "fst (check_refresh env now (s, t)) = Some e"
      and "fst (snd (check_refresh env now (s, t))) = s1"
      and "posts (snd (snd (check_refresh env now (s, t)))) =
        posts t @ [(''com.atproto.server.refreshSession'', empty_body, tokens s)]"
      using p1 by (simp_all add: c)
  qed
qed

theorem invalid_token_reconnect_witness:
  "sublist InvalidToken
     (''Request failed with HTTP error: 400 Bad Request {'' @ InvalidToken @ ''}'') \<and>
   fst (check_refresh rejecting_env 1 (example_session, quiet)) = None \<and>
   fst (snd (check_refresh rejecting_env 1 (example_session, quiet))) =
     example_session\<lparr>tokens := \<lparr>accessJwt = ''access-1'', refreshJwt = ''refresh-1''\<rparr>,
       access_expiry := 3600000, refresh_expiry := 86400000\<rparr> \<and>
   fst (check_refresh failing_env 1 (example_session, quiet)) =
     Some (system_error 111 False ''Connection refused'') \<and>
   fst (check_refresh undecodable_env 1 (example_session, quiet)) =
     Some (std_exception ''invalid token supplied'') \<and>
   fst (snd (check_refresh undecodable_env 1 (example_session, quiet))) =
     example_session\<lparr>tokens := \<lparr>accessJwt = ''garbage'', refreshJwt = ''refresh-2''\<rparr>\<rparr>"
proof -
  let ?e = "std_exception
      (''Request failed with HTTP error: 400 Bad Request {'' @ InvalidToken @ ''}'')"
  let ?tk = "\<lparr>accessJwt = ''access-1'', refreshJwt = ''refresh-1''\<rparr>"
  let ?g = "\<lparr>accessJwt = ''garbage'', refreshJwt = ''refresh-2''\<rparr>"
  have need: "access_expiry example_session < 1 \<or>
      duration_cast_ms (ticks_per_ms env) (int64 (access_expiry example_session - 1))
        < AccessExpiryBuffer env"
    if "ticks_per_ms env = 1" "AccessExpiryBuffer env = 60000" for env
    using that by (simp add: example_session_def duration_cast_ms_def int64_def)
  have cfg: "ticks_per_ms rejecting_env = 1" "AccessExpiryBuffer rejecting_env = 60000"
    "ticks_per_ms failing_env = 1" "AccessExpiryBuffer failing_env = 60000"
    "ticks_per_ms undecodable_env = 1" "AccessExpiryBuffer undecodable_env = 60000"
    by (simp_all add: rejecting_env_def failing_env_def undecodable_env_def example_env_def)
  have fail: "client_do_post rejecting_env
      ''com.atproto.server.refreshSession'' empty_body (tokens example_session) = Inl ?e \<and>
      example_session = example_session \<or>
      (\<exists>tk. client_do_post rejecting_env
          ''com.atproto.server.refreshSession'' empty_body (tokens example_session) = Inr tk \<and>
            expires_at rejecting_env (accessJwt tk) = Inl ?e \<and>
            example_session = example_session\<lparr>tokens := tk\<rparr>) \<or>
      (\<exists>tk a. client_do_post rejecting_env
          ''com.atproto.server.refreshSession'' empty_body (tokens example_session) = Inr tk \<and>
            expires_at rejecting_env (accessJwt tk) = Inr a \<and>
            expires_at rejecting_env (refreshJwt tk) = Inl ?e \<and>
            example_session = example_session\<lparr>tokens := tk, access_expiry := a\<rparr>)"
    by (simp add: rejecting_env_def)
  have marker: "sublist InvalidToken (what ?e)" by code_simp
  have ok: "client_do_post rejecting_env ''com.atproto.server.createSession''
        (login_body (credentials example_session)) (tokens example_session) = Inr ?tk \<and>
      expires_at rejecting_env (accessJwt ?tk) = Inr 3600000 \<and>
      expires_at rejecting_env (refreshJwt ?tk) = Inr 86400000"
    by (simp add: rejecting_env_def example_env_def)
  have a: "fst (check_refresh rejecting_env 1 (example_session, quiet)) = None \<and>
      fst (snd (check_refresh rejecting_env 1 (example_session, quiet))) =
        example_session\<lparr>tokens := ?tk, access_expiry := 3600000, refresh_expiry := 86400000\<rparr>"
    using invalid_token_reconnect[OF need[OF cfg(1,2)] fail, of quiet, THEN conjunct1,
        rule_format, OF marker, THEN conjunct2, rule_format, OF ok] .
  let ?f = "system_error 111 False ''Connection refused''"
  have fail': "client_do_post failing_env
      ''com.atproto.server.refreshSession'' empty_body (tokens example_session) = Inl ?f \<and>
      example_session = example_session \<or>
      (\<exists>tk. client_do_post failing_env
          ''com.atproto.server.refreshSession'' empty_body (tokens example_session) = Inr tk \<and>
            expires_at failing_env (accessJwt tk) = Inl ?f \<and>
            example_session = example_session\<lparr>tokens := tk\<rparr>) \<or>
      (\<exists>tk a. client_do_post failing_env
          ''com.atproto.server.refreshSession'' empty_body (tokens example_session) = Inr tk \<and>
            expires_at failing_env (accessJwt tk) = Inr a \<and>
            expires_at failing_env (refreshJwt tk) = Inl ?f \<and>
            example_session = example_session\<lparr>tokens := tk, access_expiry := a\<rparr>)"
    by (simp add: failing_env_def)
  have other: "\<not> sublist InvalidToken (what ?f)" by code_simp
  have b: "fst (check_refresh failing_env 1 (example_session, quiet)) = Some ?f"
    using invalid_token_reconnect[OF need[OF cfg(3,4)] fail', of quiet, THEN conjunct2,
        rule_format, OF other, THEN conjunct1] .
  let ?d = "std_exception ''invalid token supplied''"
  have fail'': "client_do_post undecodable_env
      ''com.atproto.server.refreshSession'' empty_body (tokens example_session) = Inl ?d \<and>
      example_session\<lparr>tokens := ?g\<rparr> = example_session \<or>
      (\<exists>tk. client_do_post undecodable_env
          ''com.atproto.server.refreshSession'' empty_body (tokens example_session) = Inr tk \<and>
            expires_at undecodable_env (accessJwt tk) = Inl ?d \<and>
            example_session\<lparr>tokens := ?g\<rparr> = example_session\<lparr>tokens := tk\<rparr>) \<or>
      (\<exists>tk a. client_do_post undecodable_env
          ''com.atproto.server.refreshSession'' empty_body (tokens example_session) = Inr tk \<and>
            expires_at undecodable_env (accessJwt tk) = Inr a \<and>
            expires_at undecodable_env (refreshJwt tk) = Inl ?d \<and>
            example_session\<lparr>tokens := ?g\<rparr> = example_session\<lparr>tokens := tk, access_expiry := a\<rparr>)"
    by (simp add: undecodable_env_def example_env_def)
  have other': "\<not> sublist InvalidToken (what ?d)" by code_simp
  note c = invalid_token_reconnect[OF need[OF cfg(5,6)] fail'', of quiet, THEN conjunct2,
        rule_format, OF other']
  have marker': "sublist InvalidToken
     (''Request failed with HTTP error: 400 Bad Request {'' @ InvalidToken @ ''}'')"
    using marker by simp
  show ?thesis
    using marker' a b c by (intro conjI) simp_all
qed

section \<open>Properties of the client\<close>

lemma write_log_simps [simp]:
  "requests (write_log l m io) = requests io"
  "client_log (write_log l m io) = client_log io @ [(l, m)]"
  "automation (write_log l m io) = automation io"
  by (simp_all add: write_log_def)







text \<open>
  C2 on the program: a client that is not ready and not in dry-run mode logs the
  "not ready, skip report" line and then sends the POST to \<^verbatim>\<open>createReport\<close> all the same:
  the \<^verbatim>\<open>if (!_is_ready)\<close> block has no \<^verbatim>\<open>return\<close>.
\<close>

theorem send_report_not_ready:
  "fst (send_report (example_client\<lparr>is_ready := False\<rparr>) steady_net ''link_redirection'' silence) = None \<and>
   requests (snd (send_report (example_client\<lparr>is_ready := False\<rparr>) steady_net ''link_redirection'' silence)) =
     [(''POST'', ''https://pds.test/xrpc/com.atproto.moderation.createReport'')] \<and>
   client_log (snd (send_report (example_client\<lparr>is_ready := False\<rparr>) steady_net ''link_redirection'' silence)) =
     [(Error, ''Bluesky client not ready, skip report of {}''),
      (Info, ''Report of {} {} recorded at {}, reporter {} id={}'')] \<and>
   automation (snd (send_report (example_client\<lparr>is_ready := False\<rparr>) steady_net ''link_redirection'' silence))
     (''report'', ''link_redirection'') = 1"
  by (intro conjI; code_simp)

lemma refreshed_send:
  "refreshed net i io (\<lambda>io. send net i rq (f io)) =
     (pass_refreshed net i,
      if refresh_throws net i = None then (f io)\<lparr>requests := requests (f io) @ [rq]\<rparr> else io)"
  by (simp add: refreshed_def send_def pass_refreshed_def split: option.splits)

lemma send_plain: "send net i rq io = (reply net i, io\<lparr>requests := requests io @ [rq]\<rparr>)"
  by (simp add: send_def)

lemma do_post_loop_result:
  "fst (do_post_loop c net rel nl resp r io) = retry_result True (pass_refreshed net) resp r"
proof (induction "5 - r" arbitrary: r io nl)
  case 0
  then have "\<not> r < 5" by simp
  then show ?case
    by (subst do_post_loop.simps, subst retry_result.simps) simp
next
  case (Suc n)
  then have r: "r < 5" and n: "n = 5 - Suc r" by simp_all
  note IH = Suc.hyps(1)[OF n]
  show ?case
    using r
    by (subst do_post_loop.simps, subst retry_result.simps)
       (auto simp: refreshed_send IH split: sum.splits exn.splits)
qed

lemma create_record_loop_result:
  "fst (create_record_loop c net resp r io) = retry_result False (pass_refreshed net) resp r"
proof (induction "5 - r" arbitrary: r io)
  case 0
  then have "\<not> r < 5" by simp
  then show ?case
    by (subst create_record_loop.simps, subst retry_result.simps) simp
next
  case (Suc n)
  then have r: "r < 5" and n: "n = 5 - Suc r" by simp_all
  note IH = Suc.hyps(1)[OF n]
  show ?case
    using r
    by (subst create_record_loop.simps, subst retry_result.simps)
       (auto simp: refreshed_send send_plain IH split: sum.splits exn.splits)
qed

lemma get_record_loop_result:
  "fst (get_record_loop c net resp r io) = retry_result True (reply net) resp r"
proof (induction "5 - r" arbitrary: r io)
  case 0
  then have "\<not> r < 5" by simp
  then show ?case
    by (subst get_record_loop.simps, subst retry_result.simps) simp
next
  case (Suc n)
  then have r: "r < 5" and n: "n = 5 - Suc r" by simp_all
  note IH = Suc.hyps(1)[OF n]
  show ?case
    using r
    by (subst get_record_loop.simps, subst retry_result.simps)
       (auto simp: refreshed_send send_plain IH split: sum.splits exn.splits)
qed

lemma put_record_loop_result:
  "fst (put_record_loop c net resp r io) = retry_result False (pass_refreshed net) resp r"
proof (induction "5 - r" arbitrary: r io)
  case 0
  then have "\<not> r < 5" by simp
  then show ?case
    by (subst put_record_loop.simps, subst retry_result.simps) simp
next
  case (Suc n)
  then have r: "r < 5" and n: "n = 5 - Suc r" by simp_all
  note IH = Suc.hyps(1)[OF n]
  show ?case
    using r
    by (subst put_record_loop.simps, subst retry_result.simps)
       (auto simp: refreshed_send send_plain IH split: sum.splits exn.splits)
qed

lemma do_get_loop_result:
  "fst (do_get_loop c net rel resp r io) = retry_result False (reply net) resp r"
proof (induction "5 - r" arbitrary: r io)
  case 0
  then have "\<not> r < 5" by simp
  then show ?case
    by (subst do_get_loop.simps, subst retry_result.simps) simp
next
  case (Suc n)
  then have r: "r < 5" and n: "n = 5 - Suc r" by simp_all
  note IH = Suc.hyps(1)[OF n]
  show ?case
    using r
    by (subst do_get_loop.simps, subst retry_result.simps)
       (auto simp: refreshed_send send_plain IH split: sum.splits exn.splits)
qed

lemma emit_event_loop_result:
  "fst (emit_event_loop c net resp r io) = retry_result False (pass_refreshed net) resp r"
proof (induction "5 - r" arbitrary: r io)
  case 0
  then have "\<not> r < 5" by simp
  then show ?case
    by (subst emit_event_loop.simps, subst retry_result.simps) simp
next
  case (Suc n)
  then have r: "r < 5" and n: "n = 5 - Suc r" by simp_all
  note IH = Suc.hyps(1)[OF n]
  show ?case
    using r
    by (subst emit_event_loop.simps, subst retry_result.simps)
       (auto simp: refreshed_send send_plain IH split: sum.splits exn.splits)
qed

lemma retry_result_ok:
  assumes "r \<le> i" and "i < 5"
    and "\<forall>j. r \<le> j \<and> j < i \<longrightarrow> (\<exists>e. pass j = Inl e \<and> is_asio_eof e)"
    and "pass i = Inr x"
  shows "retry_result b pass resp r = Inr x"
  using assms
proof (induction "i - r" arbitrary: r)
  case 0
  then have "r = i" by simp
  with 0 show ?case by (subst retry_result.simps) simp
next
  case (Suc n)
  then have lt: "r < i" and n: "n = i - Suc r" by simp_all
  then obtain e where e: "pass r = Inl e" "is_asio_eof e" using Suc.prems(3) by auto
  have "retry_result b pass resp (Suc r) = Inr x"
    using Suc.hyps(1)[OF n] lt Suc.prems by simp
  with e lt Suc.prems(2) show ?case by (subst retry_result.simps) simp
qed

lemma retry_result_other:
  assumes "r \<le> i" and "i < 5"
    and "\<forall>j. r \<le> j \<and> j < i \<longrightarrow> (\<exists>e. pass j = Inl e \<and> is_asio_eof e)"
    and "pass i = Inl e" and "\<not> is_asio_eof e"
  shows "retry_result b pass resp r = Inl e"
  using assms
proof (induction "i - r" arbitrary: r)
  case 0
  then have "r = i" by simp
  with 0 show ?case by (subst retry_result.simps) simp
next
  case (Suc n)
  then have lt: "r < i" and n: "n = i - Suc r" by simp_all
  then obtain e' where e: "pass r = Inl e'" "is_asio_eof e'" using Suc.prems(3) by auto
  have "retry_result b pass resp (Suc r) = Inl e"
    using Suc.hyps(1)[OF n] lt Suc.prems by simp
  with e lt Suc.prems(2) show ?case by (subst retry_result.simps) simp
qed

lemma retry_result_exhausted:
  assumes "r < 5"
    and "\<forall>j. r \<le> j \<and> j < 5 \<longrightarrow> (\<exists>e. pass j = Inl e \<and> is_asio_eof e)"
  shows "retry_result True pass resp r = pass 4"
  using assms
proof (induction "4 - r" arbitrary: r)
  case 0
  then have r: "r = 4" by simp
  have "\<exists>e. pass 4 = Inl e \<and> is_asio_eof e" using 0(3) r by simp
  then obtain e where e: "pass 4 = Inl e" "is_asio_eof e" by blast
  with r show ?case by (subst retry_result.simps) simp
next
  case (Suc n)
  then have lt: "r < 4" and n: "n = 4 - Suc r" by simp_all
  then obtain e where e: "pass r = Inl e" "is_asio_eof e" using Suc.prems(2) by auto
  have "retry_result True pass resp (Suc r) = pass 4"
    using Suc.hyps(1)[OF n] lt Suc.prems by simp
  with e lt show ?case by (subst retry_result.simps) simp
qed

lemma send_report_loop_ok:
  assumes "r \<le> i" and "i < 5"
    and "\<forall>j. r \<le> j \<and> j < i \<longrightarrow> (\<exists>e. pass_refreshed net j = Inl e \<and> is_asio_eof e)"
    and "pass_refreshed net i = Inr x"
  shows "fst (send_report_loop c net name r io) \<and>
         automation (snd (send_report_loop c net name r io)) =
           increment (''report'', name) (automation io)"
  using assms
proof (induction "i - r" arbitrary: r io)
  case 0
  then have "r = i" by simp
  with 0 show ?case
    by (subst (1 2) send_report_loop.simps) (simp add: refreshed_send)
next
  case (Suc n)
  then have lt: "r < i" and n: "n = i - Suc r" by simp_all
  then obtain e where e: "pass_refreshed net r = Inl e" "is_asio_eof e"
    using Suc.prems(3) by auto
  then obtain v misc m where v: "e = system_error v misc m" "v = asio_eof" "misc"
    by (cases e) simp_all
  have IH: "fst (send_report_loop c net name (Suc r) io') \<and>
         automation (snd (send_report_loop c net name (Suc r) io')) =
           increment (''report'', name) (automation io')" for io'
    using Suc.hyps(1)[OF n] lt Suc.prems by simp
  show ?case
    using e v lt Suc.prems(2)
    by (subst (1 2) send_report_loop.simps) (simp add: refreshed_send IH)
qed

lemma send_report_loop_other:
  assumes "r \<le> i" and "i < 5"
    and "\<forall>j. r \<le> j \<and> j < i \<longrightarrow> (\<exists>e. pass_refreshed net j = Inl e \<and> is_asio_eof e)"
    and "pass_refreshed net i = Inl e" and "\<not> is_asio_eof e"
  shows "\<not> fst (send_report_loop c net name r io) \<and>
         automation (snd (send_report_loop c net name r io)) = automation io"
  using assms
proof (induction "i - r" arbitrary: r io)
  case 0
  then have "r = i" by simp
  with 0 show ?case
    by (subst (1 2) send_report_loop.simps) (cases e; auto simp: refreshed_send)
next
  case (Suc n)
  then have lt: "r < i" and n: "n = i - Suc r" by simp_all
  then obtain e' where e: "pass_refreshed net r = Inl e'" "is_asio_eof e'"
    using Suc.prems(3) by auto
  then obtain v misc m where v: "e' = system_error v misc m" "v = asio_eof" "misc"
    by (cases e') simp_all
  have IH: "\<not> fst (send_report_loop c net name (Suc r) io') \<and>
         automation (snd (send_report_loop c net name (Suc r) io')) = automation io'" for io'
    using Suc.hyps(1)[OF n] lt Suc.prems by simp
  show ?case
    using e v lt Suc.prems(2)
    by (subst (1 2) send_report_loop.simps) (simp add: refreshed_send IH)
qed

lemma send_report_loop_exhausted:
  assumes "r \<le> 5"
    and "\<forall>j. r \<le> j \<and> j < 5 \<longrightarrow> (\<exists>e. pass_refreshed net j = Inl e \<and> is_asio_eof e)"
  shows "\<not> fst (send_report_loop c net name r io) \<and>
         automation (snd (send_report_loop c net name r io)) = automation io"
  using assms
proof (induction "5 - r" arbitrary: r io)
  case 0
  then have "r = 5" by simp
  then show ?case by (subst (1 2) send_report_loop.simps) simp
next
  case (Suc n)
  then have lt: "r < 5" and n: "n = 5 - Suc r" by simp_all
  then obtain e where e: "pass_refreshed net r = Inl e" "is_asio_eof e"
    using Suc.prems(2) by auto
  then obtain v misc m where v: "e = system_error v misc m" "v = asio_eof" "misc"
    by (cases e) simp_all
  have IH: "\<not> fst (send_report_loop c net name (Suc r) io') \<and>
         automation (snd (send_report_loop c net name (Suc r) io')) = automation io'" for io'
    using Suc.hyps(1)[OF n] lt Suc.prems by simp
  show ?case
    using e v lt
    by (subst (1 2) send_report_loop.simps) (simp add: refreshed_send IH)
qed

lemma send_report_returns: "fst (send_report c net name io) = None"
  by (simp add: send_report_def Let_def split: prod.splits)

lemma send_report_automation:
  assumes "\<not> dry_run c"
  shows "automation (snd (send_report c net name io)) =
    (let io' = (if \<not> is_ready c
                then write_log Error ''Bluesky client not ready, skip report of {}'' io else io);
         l = send_report_loop c net name 0 io'
     in if fst l then automation (snd l)
        else increment (''report_error'', name) (automation (snd l)))"
  using assms by (simp add: send_report_def Let_def split: prod.splits)

lemma eofs_from_0:
  "(\<forall>j<i. \<exists>e. pass j = Inl e \<and> is_asio_eof e) \<Longrightarrow>
   \<forall>j. 0 \<le> j \<and> j < i \<longrightarrow> (\<exists>e. pass j = Inl e \<and> is_asio_eof e)"
  by simp

text \<open>
  C3, as the program has it. Let the passes before pass \<open>i < 5\<close> fail with a read-EOF.
  If pass \<open>i\<close> succeeds, \<^verbatim>\<open>do_post\<close>, \<^verbatim>\<open>create_record\<close>, \<^verbatim>\<open>put_record\<close>, \<^verbatim>\<open>emit_event\<close>,
  \<^verbatim>\<open>get_record\<close> and \<^verbatim>\<open>do_get\<close> return its response and \<^verbatim>\<open>send_report\<close> counts a report; if
  pass \<open>i\<close> throws anything else, these six operations throw that exception, and
  \<^verbatim>\<open>send_report\<close> counts a report error. When five passes in a row fail with a read-EOF,
  \<^verbatim>\<open>do_post\<close> and \<^verbatim>\<open>get_record\<close> throw the fifth, and \<^verbatim>\<open>send_report\<close> counts a report error.
  \<^verbatim>\<open>send_report\<close> itself never throws.
\<close>

theorem retry_policy:
  assumes i: "i < 5"
  shows
    "((\<forall>j<i. \<exists>e. pass_refreshed net j = Inl e \<and> is_asio_eof e) \<longrightarrow>
        (\<forall>x. pass_refreshed net i = Inr x \<longrightarrow>
           fst (do_post c net rel nl resp io) = Inr x \<and>
           fst (create_record c net resp io) = Inr x \<and>
           fst (put_record c net resp io) = Inr x \<and>
           fst (emit_event c net resp io) = Inr x \<and>
           (\<not> dry_run c \<longrightarrow>
              automation (snd (send_report c net name io)) =
                increment (''report'', name) (automation io))) \<and>
        (\<forall>e. pass_refreshed net i = Inl e \<and> \<not> is_asio_eof e \<longrightarrow>
           fst (do_post c net rel nl resp io) = Inl e \<and>
           fst (create_record c net resp io) = Inl e \<and>
           fst (put_record c net resp io) = Inl e \<and>
           fst (emit_event c net resp io) = Inl e \<and>
           (\<not> dry_run c \<longrightarrow>
              automation (snd (send_report c net name io)) =
                increment (''report_error'', name) (automation io)))) \<and>
     ((\<forall>j<i. \<exists>e. reply net j = Inl e \<and> is_asio_eof e) \<longrightarrow>
        (\<forall>x. reply net i = Inr x \<longrightarrow>
           fst (get_record c net resp io) = Inr x \<and>
           fst (do_get c net rel resp io) = Inr x) \<and>
        (\<forall>e. reply net i = Inl e \<and> \<not> is_asio_eof e \<longrightarrow>
           fst (get_record c net resp io) = Inl e \<and>
           fst (do_get c net rel resp io) = Inl e)) \<and>
     ((\<forall>j<5. \<exists>e. pass_refreshed net j = Inl e \<and> is_asio_eof e) \<longrightarrow>
        fst (do_post c net rel nl resp io) = pass_refreshed net 4 \<and>
        (\<not> dry_run c \<longrightarrow>
           automation (snd (send_report c net name io)) =
             increment (''report_error'', name) (automation io))) \<and>
     ((\<forall>j<5. \<exists>e. reply net j = Inl e \<and> is_asio_eof e) \<longrightarrow>
        fst (get_record c net resp io) = reply net 4) \<and>
     fst (send_report c net name io) = None"
proof (intro conjI impI allI)
  fix x
  assume a: "\<forall>j<i. \<exists>e. pass_refreshed net j = Inl e \<and> is_asio_eof e"
    and x: "pass_refreshed net i = Inr x"
  note r = retry_result_ok[OF le0 i eofs_from_0[OF a] x]
  show "fst (do_post c net rel nl resp io) = Inr x"
    by (simp only: do_post_def do_post_loop_result r)
  show "fst (create_record c net resp io) = Inr x"
    by (simp only: create_record_def create_record_loop_result r)
  show "fst (put_record c net resp io) = Inr x"
    by (simp only: put_record_def put_record_loop_result r)
  show "fst (emit_event c net resp io) = Inr x"
    by (simp only: emit_event_def emit_event_loop_result r)
  assume d: "\<not> dry_run c"
  show "automation (snd (send_report c net name io)) =
      increment (''report'', name) (automation io)"
    using send_report_loop_ok[OF le0 i eofs_from_0[OF a] x, of c name]
    by (simp add: send_report_automation[OF d] Let_def)
next
  fix e
  assume a: "\<forall>j<i. \<exists>e. pass_refreshed net j = Inl e \<and> is_asio_eof e"
    and e: "pass_refreshed net i = Inl e \<and> \<not> is_asio_eof e"
  note r = retry_result_other[OF le0 i eofs_from_0[OF a] conjunct1[OF e] conjunct2[OF e]]
  show "fst (do_post c net rel nl resp io) = Inl e"
    by (simp only: do_post_def do_post_loop_result r)
  show "fst (create_record c net resp io) = Inl e"
    by (simp only: create_record_def create_record_loop_result r)
  show "fst (put_record c net resp io) = Inl e"
    by (simp only: put_record_def put_record_loop_result r)
  show "fst (emit_event c net resp io) = Inl e"
    by (simp only: emit_event_def emit_event_loop_result r)
  assume d: "\<not> dry_run c"
  show "automation (snd (send_report c net name io)) =
      increment (''report_error'', name) (automation io)"
    using send_report_loop_other[OF le0 i eofs_from_0[OF a] conjunct1[OF e] conjunct2[OF e],
        of c name]
    by (simp add: send_report_automation[OF d] Let_def)
next
  fix x
  assume a: "\<forall>j<i. \<exists>e. reply net j = Inl e \<and> is_asio_eof e" and x: "reply net i = Inr x"
  note r = retry_result_ok[OF le0 i eofs_from_0[OF a] x]
  show "fst (get_record c net resp io) = Inr x"
    by (simp only: get_record_def get_record_loop_result r)
  show "fst (do_get c net rel resp io) = Inr x"
    by (simp only: do_get_def do_get_loop_result r)
next
  fix e
  assume a: "\<forall>j<i. \<exists>e. reply net j = Inl e \<and> is_asio_eof e"
    and e: "reply net i = Inl e \<and> \<not> is_asio_eof e"
  note r = retry_result_other[OF le0 i eofs_from_0[OF a] conjunct1[OF e] conjunct2[OF e]]
  show "fst (get_record c net resp io) = Inl e"
    by (simp only: get_record_def get_record_loop_result r)
  show "fst (do_get c net rel resp io) = Inl e"
    by (simp only: do_get_def do_get_loop_result r)
next
  assume a: "\<forall>j<5. \<exists>e. pass_refreshed net j = Inl e \<and> is_asio_eof e"
  have z: "(0::nat) < 5" "(0::nat) \<le> 5" by simp_all
  show "fst (do_post c net rel nl resp io) = pass_refreshed net 4"
    by (simp only: do_post_def do_post_loop_result
        retry_result_exhausted[OF z(1) eofs_from_0[OF a]])
  assume d: "\<not> dry_run c"
  show "automation (snd (send_report c net name io)) =
      increment (''report_error'', name) (automation io)"
    using send_report_loop_exhausted[OF z(2) eofs_from_0[OF a], of c name]
    by (simp add: send_report_automation[OF d] Let_def)
next
  assume a: "\<forall>j<5. \<exists>e. reply net j = Inl e \<and> is_asio_eof e"
  have z: "(0::nat) < 5" by simp
  show "fst (get_record c net resp io) = reply net 4"
    by (simp only: get_record_def get_record_loop_result
        retry_result_exhausted[OF z eofs_from_0[OF a]])
next
  show "fst (send_report c net name io) = None" by (rule send_report_returns)
qed

theorem retry_policy_witness:
  "(1::nat) < 5 \<and>
   fst (do_post example_client flaky_net ''com.atproto.repo.applyWrites'' False 0 silence) = Inr 7 \<and>
   fst (get_record example_client flaky_net 0 silence) = Inr 7 \<and>
   fst (emit_event example_client refused_net 0 silence) =
     Inl (std_exception ''Request failed with HTTP error: 400 Bad Request'') \<and>
   fst (do_get example_client refused_net ''app.bsky.actor.getProfile'' 0 silence) =
     Inl (std_exception ''Request failed with HTTP error: 400 Bad Request'') \<and>
   automation (snd (send_report example_client refused_net ''link_redirection'' silence))
     (''report_error'', ''link_redirection'') = 1 \<and>
   fst (do_post example_client eof_net ''com.atproto.repo.applyWrites'' False 0 silence) = Inl eof \<and>
   fst (get_record example_client eof_net 0 silence) = Inl eof"
proof -
  let ?bad = "std_exception ''Request failed with HTTP error: 400 Bad Request''"
  have i: "(1::nat) < 5" by simp
  have e: "is_asio_eof eof" by (simp add: eof_def asio_eof_def)
  have nb: "\<not> is_asio_eof ?bad" by simp
  have d: "\<not> dry_run example_client" by (simp add: example_client_def)
  have f0: "\<forall>j<1. \<exists>e. pass_refreshed flaky_net j = Inl e \<and> is_asio_eof e"
    and f0': "\<forall>j<1. \<exists>e. reply flaky_net j = Inl e \<and> is_asio_eof e"
    and f1: "pass_refreshed flaky_net 1 = Inr 7" and f1': "reply flaky_net 1 = Inr 7"
    using e by (simp_all add: flaky_net_def pass_refreshed_def)
  have r0: "\<forall>j<1. \<exists>e. pass_refreshed refused_net j = Inl e \<and> is_asio_eof e"
    and r0': "\<forall>j<1. \<exists>e. reply refused_net j = Inl e \<and> is_asio_eof e"
    and r1: "pass_refreshed refused_net 1 = Inl ?bad \<and> \<not> is_asio_eof ?bad"
    and r1': "reply refused_net 1 = Inl ?bad \<and> \<not> is_asio_eof ?bad"
    using e by (simp_all add: refused_net_def pass_refreshed_def)
  have x0: "\<forall>j<5. \<exists>e. pass_refreshed eof_net j = Inl e \<and> is_asio_eof e"
    and x0': "\<forall>j<5. \<exists>e. reply eof_net j = Inl e \<and> is_asio_eof e"
    and x4: "pass_refreshed eof_net 4 = Inl eof" and x4': "reply eof_net 4 = Inl eof"
    using e by (simp_all add: eof_net_def pass_refreshed_def)
  note flaky = retry_policy[OF i, of flaky_net example_client
      "''com.atproto.repo.applyWrites''" False 0 silence "''link_redirection''"]
  note refused = retry_policy[OF i, of refused_net example_client
      "''app.bsky.actor.getProfile''" False 0 silence "''link_redirection''"]
  note gone = retry_policy[OF i, of eof_net example_client
      "''com.atproto.repo.applyWrites''" False 0 silence "''link_redirection''"]
  have a1: "fst (do_post example_client flaky_net ''com.atproto.repo.applyWrites'' False 0 silence) = Inr 7"
    using flaky f0 f1 by blast
  have a2: "fst (get_record example_client flaky_net 0 silence) = Inr 7"
    using flaky f0' f1' by blast
  have a3: "fst (emit_event example_client refused_net 0 silence) = Inl ?bad"
    using refused r0 r1 by blast
  have a4: "fst (do_get example_client refused_net ''app.bsky.actor.getProfile'' 0 silence) = Inl ?bad"
    using refused r0' r1' by blast
  have "automation (snd (send_report example_client refused_net ''link_redirection'' silence)) =
      increment (''report_error'', ''link_redirection'') (automation silence)"
    using refused r0 r1 d by blast
  then have a5: "automation (snd (send_report example_client refused_net ''link_redirection'' silence))
     (''report_error'', ''link_redirection'') = 1"
    by (simp add: increment_apply silence_def)
  have a6: "fst (do_post example_client eof_net ''com.atproto.repo.applyWrites'' False 0 silence) = Inl eof"
    using gone x0 x4 by simp
  have a7: "fst (get_record example_client eof_net 0 silence) = Inl eof"
    using gone x0' x4' by simp
  show ?thesis using i a1 a2 a3 a4 a5 a6 a7 by (intro conjI)
qed

text \<open>
  C3 as stated fails for \<^verbatim>\<open>send_report\<close>: an HTTP error after one read-EOF does not reach
  the caller; the function returns normally, having counted a report error.
\<close>

theorem retry_policy_counterexample:
  "reply refused_net 1 = Inl (std_exception ''Request failed with HTTP error: 400 Bad Request'') \<and>
   fst (send_report example_client refused_net ''link_redirection'' silence) = None \<and>
   requests (snd (send_report example_client refused_net ''link_redirection'' silence)) =
     [(''POST'', ''https://pds.test/xrpc/com.atproto.moderation.createReport''),
      (''POST'', ''https://pds.test/xrpc/com.atproto.moderation.createReport'')] \<and>
   automation (snd (send_report example_client refused_net ''link_redirection'' silence))
     (''report_error'', ''link_redirection'') = 1"
  by (intro conjI; code_simp)

section \<open>Properties of the embed checker\<close>

text \<open>
  C8. Let \<open>t\<close> be the URI without a trailing ellipsis (the URI itself when it does not end
  in the three bytes). If \<open>t\<close> does not parse, \<^verbatim>\<open>should_process_uri\<close> returns false, having
  logged a warning and counted the URI as malformed. If \<open>t\<close> parses with host \<open>h\<close>, and
  \<open>r\<close> is \<open>h\<close> without the configured prefix (\<open>h\<close> itself when it does not start with it),
  the result is false with the whitelist-skip counter raised when \<open>r\<close> is whitelisted, and
  true with nothing changed otherwise.
\<close>

theorem should_process_uri_admission:
  assumes target: "uri = t @ UrlSuffix \<or> ((\<nexists>x. uri = x @ UrlSuffix) \<and> t = uri)"
  shows
    "(\<forall>err. parse_uri t = Inl err \<longrightarrow>
        should_process_uri parse_uri uri w =
          (False, stat (''links'', ''malformed'')
                    (log_line Warning ''Skip malformed URI {}, error {}'' w))) \<and>
     (\<forall>h r. parse_uri t = Inr h \<longrightarrow>
        (h = uri_host_prefix w @ r \<or> ((\<nexists>x. h = uri_host_prefix w @ x) \<and> r = h)) \<longrightarrow>
        should_process_uri parse_uri uri w =
          (if r \<in> whitelist_uris w
           then (False, stat (''links'', ''whitelist_skipped'') w)
           else (True, w)))"
proof -
  have tgt: "(if ends_with uri UrlSuffix then take (length uri - length UrlSuffix) uri else uri) = t"
    using target by (auto simp: ends_with_def suffix_def)
  have hst: "(if starts_with h (uri_host_prefix w) then drop (length (uri_host_prefix w)) h else h) = r"
    if "h = uri_host_prefix w @ r \<or> ((\<nexists>x. h = uri_host_prefix w @ x) \<and> r = h)" for h r
    using that by (auto simp: starts_with_def prefix_def)
  show ?thesis
    unfolding should_process_uri_def Let_def tgt
    by (auto simp: hst)
qed

theorem should_process_uri_admission_witness:
  "should_process_uri parse_http (''http://www.example.com/x'' @ UrlSuffix) example_checker =
     (False, stat (''links'', ''whitelist_skipped'') example_checker) \<and>
   should_process_uri parse_http ''http://b.test/x'' example_checker = (True, example_checker) \<and>
   should_process_uri parse_http ''nonsense'' example_checker =
     (False, stat (''links'', ''malformed'')
               (log_line Warning ''Skip malformed URI {}, error {}'' example_checker))"
proof -
  have cfg: "uri_host_prefix example_checker = ''www.''"
    "whitelist_uris example_checker = {''example.com''}"
    by (simp_all add: example_checker_def)
  have t1: "''http://www.example.com/x'' @ UrlSuffix = ''http://www.example.com/x'' @ UrlSuffix \<or>
      ((\<nexists>x. ''http://www.example.com/x'' @ UrlSuffix = x @ UrlSuffix) \<and>
       ''http://www.example.com/x'' = ''http://www.example.com/x'' @ UrlSuffix)"
    by simp
  have p1: "parse_http ''http://www.example.com/x'' = Inr ''www.example.com''"
    by code_simp
  have h1: "''www.example.com'' = uri_host_prefix example_checker @ ''example.com'' \<or>
      ((\<nexists>x. ''www.example.com'' = uri_host_prefix example_checker @ x) \<and>
       ''example.com'' = ''www.example.com'')"
    by (simp add: cfg)
  have a: "should_process_uri parse_http (''http://www.example.com/x'' @ UrlSuffix) example_checker =
     (False, stat (''links'', ''whitelist_skipped'') example_checker)"
    using should_process_uri_admission[OF t1, of parse_http example_checker, THEN conjunct2,
        rule_format, OF p1 h1]
    by (simp add: cfg)
  have s2: "\<nexists>x. ''http://b.test/x'' = x @ UrlSuffix"
    by (auto simp: UrlSuffix_def append_eq_Cons_conv Cons_eq_append_conv)
  then have t2: "''http://b.test/x'' = ''http://b.test/x'' @ UrlSuffix \<or>
      ((\<nexists>x. ''http://b.test/x'' = x @ UrlSuffix) \<and> ''http://b.test/x'' = ''http://b.test/x'')"
    by simp
  have p2: "parse_http ''http://b.test/x'' = Inr ''b.test''" by code_simp
  have h2: "''b.test'' = uri_host_prefix example_checker @ ''b.test'' \<or>
      ((\<nexists>x. ''b.test'' = uri_host_prefix example_checker @ x) \<and> ''b.test'' = ''b.test'')"
    by (simp add: cfg)
  have b: "should_process_uri parse_http ''http://b.test/x'' example_checker = (True, example_checker)"
    using should_process_uri_admission[OF t2, of parse_http example_checker, THEN conjunct2,
        rule_format, OF p2 h2]
    by (simp add: cfg)
  have s3: "\<nexists>x. ''nonsense'' = x @ UrlSuffix"
    by (auto simp: UrlSuffix_def append_eq_Cons_conv Cons_eq_append_conv)
  then have t3: "''nonsense'' = ''nonsense'' @ UrlSuffix \<or>
      ((\<nexists>x. ''nonsense'' = x @ UrlSuffix) \<and> ''nonsense'' = ''nonsense'')"
    by simp
  have p3: "parse_http ''nonsense'' = Inl ''invalid scheme''" by code_simp
  have c: "should_process_uri parse_http ''nonsense'' example_checker =
     (False, stat (''links'', ''malformed'')
               (log_line Warning ''Skip malformed URI {}, error {}'' example_checker))"
    using should_process_uri_admission[OF t3, of parse_http example_checker, THEN conjunct1,
        rule_format, OF p3] .
  show ?thesis using a b c by (intro conjI)
qed

text \<open>
  C1 on the program. A hop to a URL that was not seen before and is to be processed
  (well-formed, host not whitelisted) is appended to the chain, and then the callback
  returns false, "stop following", without counting a redirection or consulting the
  matcher. A hop to a fresh URL on a whitelisted host, which is not to be processed, goes
  on to the matcher, hands the match to the action router and returns true. The test in
  \<^verbatim>\<open>on_url_redirect\<close> lacks the negation that the same test in \<^verbatim>\<open>operator()\<close> has.
\<close>

theorem on_url_redirect_inverted:
  "checked_uris example_checker ''http://b.test/x'' = None \<and>
   fst (should_process_uri parse_http ''http://b.test/x'' example_checker) \<and>
   \<not> fst (on_url_redirect parse_http example_matcher 301 ''http://b.test/x''
           (example_handler, example_checker)) \<and>
   uri_chain (fst (snd (on_url_redirect parse_http example_matcher 301 ''http://b.test/x''
           (example_handler, example_checker)))) = [''http://a.test/'', ''http://b.test/x''] \<and>
   embed_stats (snd (snd (on_url_redirect parse_http example_matcher 301 ''http://b.test/x''
           (example_handler, example_checker)))) (''link'', ''redirections'') = 0 \<and>
   action_queue (snd (snd (on_url_redirect parse_http example_matcher 301 ''http://b.test/x''
           (example_handler, example_checker)))) = [] \<and>
   checked_uris example_checker ''http://www.example.com/x'' = None \<and>
   \<not> fst (should_process_uri parse_http ''http://www.example.com/x'' example_checker) \<and>
   fst (on_url_redirect parse_http example_matcher 301 ''http://www.example.com/x''
           (example_handler, example_checker)) \<and>
   action_queue (snd (snd (on_url_redirect parse_http example_matcher 301
           ''http://www.example.com/x'' (example_handler, example_checker)))) =
     [(''did:plc:a'', [(''app.bsky.feed.post/1'', [''rule''])])]"
  by (intro conjI; code_simp)

text \<open>
  C7 on the program. When the redirect-limit exception is thrown inside the request and
  so reaches the follower through \<^verbatim>\<open>check_done.get()\<close>, the inner handler for
  \<^verbatim>\<open>std::exception\<close> takes it: the outcome counted is the error, not the overflow, and no
  report is enqueued, although the chain of three URLs is recorded and observed. Only an
  exception thrown by \<^verbatim>\<open>ProcessWithPromise\<close> itself reaches the overflow handler, which
  then enqueues the one report with the chain.
\<close>

theorem redirect_overflow_lost:
  "uri_chain (fst (external_embed parse_http (\<lambda>c. []) too_many_redirects ''http://a.test/''
       (new_handler, example_checker))) =
     [''http://a.test/'', ''http://www.example.com/1'', ''http://www.example.com/2''] \<and>
   report_queue (snd (external_embed parse_http (\<lambda>c. []) too_many_redirects ''http://a.test/''
       (new_handler, example_checker))) = [] \<and>
   embed_stats (snd (external_embed parse_http (\<lambda>c. []) too_many_redirects ''http://a.test/''
       (new_handler, example_checker))) (''link'', ''redirect_limit_exceeded'') = 0 \<and>
   embed_stats (snd (external_embed parse_http (\<lambda>c. []) too_many_redirects ''http://a.test/''
       (new_handler, example_checker))) (''link'', ''redirect_ok'') = 0 \<and>
   embed_stats (snd (external_embed parse_http (\<lambda>c. []) too_many_redirects ''http://a.test/''
       (new_handler, example_checker))) (''link'', ''redirect_error'') = 1 \<and>
   link_hops (snd (external_embed parse_http (\<lambda>c. []) too_many_redirects ''http://a.test/''
       (new_handler, example_checker))) = [3] \<and>
   logs (snd (external_embed parse_http (\<lambda>c. []) too_many_redirects ''http://a.test/''
       (new_handler, example_checker))) =
     [(Info, ''Redirect check starting for {}''), (Info, ''Redirect code {} for {}''),
      (Info, ''Redirect code {} for {}''), (Error, ''Redirect check {} exception {}''),
      (Info, ''Redirect check complete {} hops for {}'')] \<and>
   report_queue (snd (external_embed parse_http (\<lambda>c. [])
       (\<lambda>k. ThrowsAtCall (ConstraintException ''Too many redirects'')) ''http://a.test/''
       (new_handler, example_checker))) =
     [(''did:plc:a'', ''app.bsky.feed.post/1'', [''http://a.test/''])] \<and>
   embed_stats (snd (external_embed parse_http (\<lambda>c. [])
       (\<lambda>k. ThrowsAtCall (ConstraintException ''Too many redirects'')) ''http://a.test/''
       (new_handler, example_checker))) (''link'', ''redirect_limit_exceeded'') = 1"
  by (intro conjI; code_simp)

end
